theory Spec2Isabelle
  imports Main "HOL-Library.Word" "HOL-Library.Monad_Syntax"
begin

section \<open>Memory model\<close>

text \<open>
  Addresses are natural numbers and \<open>0\<close> is \<open>NULL\<close>. Every function of \<open>dysl.h\<close> that
  dereferences a pointer is modelled with an \<open>option\<close> result: \<open>None\<close> stands for a C
  execution without a defined result (a \<open>NULL\<close> pointer is dereferenced, a remainder by
  zero is taken, a store goes past the end of an allocated block, or a loop does not
  terminate). \<open>size_t\<close> values are natural numbers; where the wrap-around of a size matters,
  the remainder modulo \<open>2^64\<close> is written out.
\<close>

type_synonym addr = nat
type_synonym size_t = nat
type_synonym dy_tag = "32 word"
type_synonym dy_hash_t = "32 word"

subsection \<open>Allocator API\<close>

text \<open>
  \<open>struct dysl_allocator\<close>: a user-data value and the reallocate-style function. The C
  function may change whatever \<open>user_data\<close> points to, so the model's function returns the
  new user data together with the pointer.
\<close>

record 'ud dysl_allocator =
  user_data :: 'ud
  fn :: "'ud \<Rightarrow> addr \<Rightarrow> size_t \<Rightarrow> size_t \<Rightarrow> addr \<times> 'ud"

definition dAlloc_alloc :: "'ud dysl_allocator \<Rightarrow> size_t \<Rightarrow> addr \<times> 'ud dysl_allocator" where
  "dAlloc_alloc a sz = (case fn a (user_data a) 0 0 sz of (p, ud) \<Rightarrow> (p, a\<lparr>user_data := ud\<rparr>))"

definition dAlloc_free :: "'ud dysl_allocator \<Rightarrow> addr \<Rightarrow> addr \<times> 'ud dysl_allocator" where
  "dAlloc_free a p = (case fn a (user_data a) p 0 0 of (q, ud) \<Rightarrow> (q, a\<lparr>user_data := ud\<rparr>))"

subsection \<open>Tracked objects\<close>

text \<open>
  A \<open>struct dy_object*\<close> points at one of the two sentinels embedded in \<open>struct dy_gc\<close>
  (\<open>&gc->root\<close>, \<open>&gc->gen\<close>) or at a block handed out by the allocator.
\<close>

datatype objptr = RootSentinel | GenSentinel | Ptr addr

record dy_object =
  tag :: dy_tag
  previous :: objptr
  "next" :: objptr

record 'ud dy_gc =
  allocator :: "'ud dysl_allocator"
  root :: dy_object
  gen :: dy_object

text \<open>The collector structure together with the object headers that live in allocated blocks.\<close>

record 'ud gc_heap =
  gc_struct :: "'ud dy_gc"
  objs :: "addr \<Rightarrow> dy_object"

fun cell :: "'ud gc_heap \<Rightarrow> objptr \<Rightarrow> dy_object" where
  "cell h RootSentinel = root (gc_struct h)"
| "cell h GenSentinel = gen (gc_struct h)"
| "cell h (Ptr a) = objs h a"

fun put :: "'ud gc_heap \<Rightarrow> objptr \<Rightarrow> dy_object \<Rightarrow> 'ud gc_heap" where
  "put h RootSentinel v = h\<lparr>gc_struct := (gc_struct h)\<lparr>root := v\<rparr>\<rparr>"
| "put h GenSentinel v = h\<lparr>gc_struct := (gc_struct h)\<lparr>gen := v\<rparr>\<rparr>"
| "put h (Ptr a) v = h\<lparr>objs := (objs h)(a := v)\<rparr>"

definition load :: "'ud gc_heap \<Rightarrow> objptr \<Rightarrow> dy_object option" where
  "load h p = (if p = Ptr 0 then None else Some (cell h p))"

definition store :: "'ud gc_heap \<Rightarrow> objptr \<Rightarrow> dy_object \<Rightarrow> 'ud gc_heap option" where
  "store h p v = (if p = Ptr 0 then None else Some (put h p v))"

definition get_next :: "'ud gc_heap \<Rightarrow> objptr \<Rightarrow> objptr option" where
  "get_next h p = map_option next (load h p)"

definition get_previous :: "'ud gc_heap \<Rightarrow> objptr \<Rightarrow> objptr option" where
  "get_previous h p = map_option previous (load h p)"

definition set_next :: "'ud gc_heap \<Rightarrow> objptr \<Rightarrow> objptr \<Rightarrow> 'ud gc_heap option" where
  "set_next h p v = do { ob \<leftarrow> load h p; store h p (ob\<lparr>next := v\<rparr>) }"

definition set_previous :: "'ud gc_heap \<Rightarrow> objptr \<Rightarrow> objptr \<Rightarrow> 'ud gc_heap option" where
  "set_previous h p v = do { ob \<leftarrow> load h p; store h p (ob\<lparr>previous := v\<rparr>) }"

definition set_tag :: "'ud gc_heap \<Rightarrow> objptr \<Rightarrow> dy_tag \<Rightarrow> 'ud gc_heap option" where
  "set_tag h p v = do { ob \<leftarrow> load h p; store h p (ob\<lparr>tag := v\<rparr>) }"

subsection \<open>Object linked list API\<close>

text \<open>\<open>obj->previous = obj->next = obj;\<close>\<close>

definition dObj_close :: "'ud gc_heap \<Rightarrow> objptr \<Rightarrow> 'ud gc_heap option" where
  "dObj_close h obj = do { h1 \<leftarrow> set_next h obj obj; set_previous h1 obj obj }"

definition dObj_unlink :: "'ud gc_heap \<Rightarrow> objptr \<Rightarrow> 'ud gc_heap option" where
  "dObj_unlink h obj = do {
     p \<leftarrow> get_previous h obj;
     n \<leftarrow> get_next h obj;
     h1 \<leftarrow> set_next h p n;
     n1 \<leftarrow> get_next h1 obj;
     p1 \<leftarrow> get_previous h1 obj;
     h2 \<leftarrow> set_previous h1 n1 p1;
     dObj_close h2 obj
   }"

definition dObj_link :: "'ud gc_heap \<Rightarrow> objptr \<Rightarrow> objptr \<Rightarrow> 'ud gc_heap option" where
  "dObj_link h obj lst = do {
     n \<leftarrow> get_next h lst;
     h1 \<leftarrow> set_next h obj n;
     h2 \<leftarrow> set_previous h1 obj lst;
     n2 \<leftarrow> get_next h2 lst;
     h3 \<leftarrow> set_previous h2 n2 obj;
     set_next h3 lst obj
   }"

subsection \<open>Garbage collector API\<close>

definition dGC_init :: "'ud gc_heap \<Rightarrow> 'ud dysl_allocator \<Rightarrow> 'ud gc_heap option" where
  "dGC_init h a = do {
     h1 \<leftarrow> dObj_close (h\<lparr>gc_struct := (gc_struct h)\<lparr>allocator := a\<rparr>\<rparr>) RootSentinel;
     dObj_close h1 GenSentinel
   }"

definition dGC_track :: "'ud gc_heap \<Rightarrow> objptr \<Rightarrow> 'ud gc_heap option" where
  "dGC_track h obj = dObj_link h obj GenSentinel"

definition dGC_root :: "'ud gc_heap \<Rightarrow> objptr \<Rightarrow> 'ud gc_heap option" where
  "dGC_root h obj = dObj_link h obj RootSentinel"

definition dGC_unroot :: "'ud gc_heap \<Rightarrow> objptr \<Rightarrow> 'ud gc_heap option" where
  "dGC_unroot h obj = dObj_unlink h obj"

text \<open>
  \<open>sizeof(struct dy_object)\<close> on an LP64 target: the 4-byte tag, 4 bytes of padding and the
  two 8-byte links.
\<close>

definition sizeof_dy_object :: size_t where
  "sizeof_dy_object = 24"

text \<open>
  \<open>dGC_create\<close> returns the object pointer (\<open>Ptr 0\<close> for \<open>NULL\<close>) and the heap. The block
  returned by the allocator is not initialised: its header is whatever \<open>objs h\<close> holds at
  that address. The block has \<open>sz\<close> bytes, and the function stores a whole header into it
  whatever \<open>sz\<close> is: \<open>obj->tag = tag\<close> writes the bytes 0 to 3, and \<open>dObj_link\<close>, called by
  \<open>dGC_track\<close>, writes \<open>obj->previous\<close> and \<open>obj->next\<close>, the bytes 8 to 23. In a block of
  fewer than \<open>sizeof(struct dy_object)\<close> bytes these stores go past the end of the block, and
  the call has no defined result.
\<close>

definition dGC_create :: "'ud gc_heap \<Rightarrow> size_t \<Rightarrow> dy_tag \<Rightarrow> (objptr \<times> 'ud gc_heap) option" where
  "dGC_create h sz t =
     (case dAlloc_alloc (allocator (gc_struct h)) sz of (p, a) \<Rightarrow>
        let h1 = h\<lparr>gc_struct := (gc_struct h)\<lparr>allocator := a\<rparr>\<rparr> in
        if p = 0 then Some (Ptr 0, h1)
        else if sz < sizeof_dy_object then None
        else do {
          h2 \<leftarrow> set_tag h1 (Ptr p) t;
          h3 \<leftarrow> dGC_track h2 (Ptr p);
          Some (Ptr p, h3)
        })"

text \<open>
  The variant of \<open>dGC_create\<close> that the comment in the source calls unnecessary: the new
  object is closed before it is linked.
\<close>

definition dGC_create_closed :: "'ud gc_heap \<Rightarrow> size_t \<Rightarrow> dy_tag \<Rightarrow> (objptr \<times> 'ud gc_heap) option" where
  "dGC_create_closed h sz t =
     (case dAlloc_alloc (allocator (gc_struct h)) sz of (p, a) \<Rightarrow>
        let h1 = h\<lparr>gc_struct := (gc_struct h)\<lparr>allocator := a\<rparr>\<rparr> in
        if p = 0 then Some (Ptr 0, h1)
        else if sz < sizeof_dy_object then None
        else do {
          h2 \<leftarrow> set_tag h1 (Ptr p) t;
          h2' \<leftarrow> dObj_close h2 (Ptr p);
          h3 \<leftarrow> dGC_track h2' (Ptr p);
          Some (Ptr p, h3)
        })"

subsection \<open>Circular lists as an abstraction of the heap\<close>

text \<open>
  \<open>links h zs\<close>: each object of \<open>zs\<close> has the following one as its \<open>next\<close>, and is the
  \<open>previous\<close> of the following one.
\<close>

fun links :: "'ud gc_heap \<Rightarrow> objptr list \<Rightarrow> bool" where
  "links h [] \<longleftrightarrow> True"
| "links h [a] \<longleftrightarrow> True"
| "links h (a # b # zs) \<longleftrightarrow> next (cell h a) = b \<and> previous (cell h b) = a \<and> links h (b # zs)"

text \<open>
  \<open>ring h l xs\<close>: following \<open>next\<close> from the sentinel \<open>l\<close> visits exactly the objects \<open>xs\<close>,
  in this order, and comes back to \<open>l\<close>; \<open>previous\<close> is the inverse of \<open>next\<close> on the way.
\<close>

definition ring :: "'ud gc_heap \<Rightarrow> objptr \<Rightarrow> objptr list \<Rightarrow> bool" where
  "ring h l xs \<longleftrightarrow> distinct (l # xs) \<and> Ptr 0 \<notin> set (l # xs) \<and> links h (l # xs @ [l])"

text \<open>
  \<open>tracked h gs rs\<close>: the generation set is the list \<open>gs\<close>, the root set is the list \<open>rs\<close>,
  both lists are well formed and no object is in both.
\<close>

definition tracked :: "'ud gc_heap \<Rightarrow> objptr list \<Rightarrow> objptr list \<Rightarrow> bool" where
  "tracked h gs rs \<longleftrightarrow>
     ring h GenSentinel gs \<and> ring h RootSentinel rs \<and>
     distinct (GenSentinel # RootSentinel # gs @ rs)"

definition closed :: "'ud gc_heap \<Rightarrow> objptr \<Rightarrow> bool" where
  "closed h obj \<longleftrightarrow> next (cell h obj) = obj \<and> previous (cell h obj) = obj"


subsection \<open>Callers and fixtures\<close>

text \<open>
  Memory that has never been written is represented by \<open>junk\<close>. The test allocator hands
  out the addresses 1, 2, ... while its budget lasts and returns \<open>NULL\<close> afterwards; with
  budget 0 it is the zero-capacity allocator. Its user data is the last address handed out,
  the remaining budget and the list of blocks that are allocated and not yet released.
\<close>

definition junk :: dy_object where
  "junk = \<lparr>tag = 0, previous = Ptr 0, next = Ptr 0\<rparr>"

definition test_fn ::
  "nat \<times> nat \<times> addr list \<Rightarrow> addr \<Rightarrow> size_t \<Rightarrow> size_t \<Rightarrow> addr \<times> (nat \<times> nat \<times> addr list)" where
  "test_fn ud p os ns =
     (case ud of (lst, budget, live) \<Rightarrow>
        if p = 0 then
          (if 0 < ns \<and> 0 < budget then (Suc lst, (Suc lst, budget - 1, Suc lst # live))
           else (0, ud))
        else if ns = 0 then (0, (lst, budget, removeAll p live))
        else (0, ud))"

definition test_allocator :: "nat \<Rightarrow> (nat \<times> nat \<times> addr list) dysl_allocator" where
  "test_allocator budget = \<lparr>user_data = (0, budget, []), fn = test_fn\<rparr>"

definition blank_heap :: "'ud dysl_allocator \<Rightarrow> 'ud gc_heap" where
  "blank_heap a = \<lparr>gc_struct = \<lparr>allocator = a, root = junk, gen = junk\<rparr>, objs = (\<lambda>_. junk)\<rparr>"

text \<open>
  Moving objects between the sets, as a caller does it: unlink from the generation set and
  \<open>dGC_root\<close>; \<open>dGC_unroot\<close> and \<open>dGC_track\<close> for the way back.
\<close>

fun gen_to_root :: "'ud gc_heap \<Rightarrow> objptr list \<Rightarrow> 'ud gc_heap option" where
  "gen_to_root h [] = Some h"
| "gen_to_root h (x # xs) = do { h1 \<leftarrow> dObj_unlink h x; h2 \<leftarrow> dGC_root h1 x; gen_to_root h2 xs }"

fun root_to_gen :: "'ud gc_heap \<Rightarrow> objptr list \<Rightarrow> 'ud gc_heap option" where
  "root_to_gen h [] = Some h"
| "root_to_gen h (x # xs) = do { h1 \<leftarrow> dGC_unroot h x; h2 \<leftarrow> dGC_track h1 x; root_to_gen h2 xs }"

text \<open>
  A freshly created object (linked in the generation set by \<open>dGC_create\<close>) is handed
  to \<open>dGC_root\<close> directly. The result lists the object, the first object of the
  generation list, the first object of the root list, the object's own links, and whether
  the generation list and the root list are well-formed lists of just this object.
\<close>

definition root_without_unlink ::
  "(objptr \<times> objptr \<times> objptr \<times> objptr \<times> objptr \<times> bool \<times> bool) option" where
  "root_without_unlink = do {
     h0 \<leftarrow> dGC_init (blank_heap (test_allocator 1)) (test_allocator 1);
     (obj, h1) \<leftarrow> dGC_create h0 32 7;
     h2 \<leftarrow> dGC_root h1 obj;
     Some (obj, next (cell h2 GenSentinel), next (cell h2 RootSentinel),
           previous (cell h2 obj), next (cell h2 obj),
           ring h2 GenSentinel [obj], ring h2 RootSentinel [obj])
   }"

text \<open>Heaps used as concrete inputs.\<close>

definition heap_empty :: "nat \<Rightarrow> (nat \<times> nat \<times> addr list) gc_heap" where
  "heap_empty budget =
     \<lparr>gc_struct = \<lparr>allocator = test_allocator budget,
             root = \<lparr>tag = 0, previous = RootSentinel, next = RootSentinel\<rparr>,
             gen = \<lparr>tag = 0, previous = GenSentinel, next = GenSentinel\<rparr>\<rparr>,
      objs = (\<lambda>_. junk)\<rparr>"

definition heap_two_gen :: "(nat \<times> nat \<times> addr list) gc_heap" where
  "heap_two_gen =
     \<lparr>gc_struct = \<lparr>allocator = test_allocator 0,
             root = \<lparr>tag = 0, previous = RootSentinel, next = RootSentinel\<rparr>,
             gen = \<lparr>tag = 0, previous = Ptr 1, next = Ptr 2\<rparr>\<rparr>,
      objs = (\<lambda>_. junk)
        (1 := \<lparr>tag = 7, previous = Ptr 2, next = GenSentinel\<rparr>,
         2 := \<lparr>tag = 7, previous = GenSentinel, next = Ptr 1\<rparr>)\<rparr>"

definition heap_gen_root :: "(nat \<times> nat \<times> addr list) gc_heap" where
  "heap_gen_root =
     \<lparr>gc_struct = \<lparr>allocator = test_allocator 0,
             root = \<lparr>tag = 0, previous = Ptr 1, next = Ptr 1\<rparr>,
             gen = \<lparr>tag = 0, previous = Ptr 2, next = Ptr 2\<rparr>\<rparr>,
      objs = (\<lambda>_. junk)
        (1 := \<lparr>tag = 7, previous = RootSentinel, next = RootSentinel\<rparr>,
         2 := \<lparr>tag = 7, previous = GenSentinel, next = GenSentinel\<rparr>)\<rparr>"



section \<open>Symbol table\<close>

subsection \<open>Utilities\<close>

text \<open>
  Byte sequences (a \<open>const char*\<close> with its length) are lists of bytes; reading past the end
  of the list is a read outside the block and has no defined result.
\<close>

type_synonym bytes = "8 word list"

text \<open>FNV-1a over the first \<open>len\<close> bytes of \<open>key\<close>.\<close>

function fnv1a_loop :: "bytes \<Rightarrow> size_t \<Rightarrow> size_t \<Rightarrow> dy_hash_t \<Rightarrow> dy_hash_t option" where
  "fnv1a_loop dat len i h =
     (if i < len then
        (if i < length dat then fnv1a_loop dat len (Suc i) ((xor h (ucast (dat ! i))) * 16777619)
         else None)
      else Some h)"
  by pat_completeness auto
termination
  by (relation "measure (\<lambda>(dat, len, i, h). len - i)") auto

declare fnv1a_loop.simps [simp del]

definition dHash_fnv1a :: "bytes \<Rightarrow> size_t \<Rightarrow> dy_hash_t option" where
  "dHash_fnv1a key len = fnv1a_loop key len 0 2166136261"

function slice_loop :: "bytes \<Rightarrow> bytes \<Rightarrow> size_t \<Rightarrow> size_t \<Rightarrow> bool option" where
  "slice_loop pa pb a_length i =
     (if i < a_length then
        (if i < length pa \<and> i < length pb then
           (if pa ! i \<noteq> pb ! i then Some False else slice_loop pa pb a_length (Suc i))
         else None)
      else Some True)"
  by pat_completeness auto
termination
  by (relation "measure (\<lambda>(pa, pb, a_length, i). a_length - i)") auto

declare slice_loop.simps [simp del]

definition dSlice_equals :: "bytes \<Rightarrow> size_t \<Rightarrow> bytes \<Rightarrow> size_t \<Rightarrow> bool option" where
  "dSlice_equals a a_length b b_length =
     (if a_length \<noteq> b_length then Some False else slice_loop a b a_length 0)"

subsection \<open>Symbols and the table\<close>

text \<open>
  \<open>struct dy_symbol\<close>; the field \<open>length\<close> is called \<open>length_sym\<close> here. The table functions
  never touch the object header of a symbol, so a header is kept in the record only to
  mirror the struct.
\<close>

record dy_symbol =
  header :: dy_object
  next_in_table :: addr
  length_sym :: size_t
  hash :: dy_hash_t
  name :: bytes

record dy_symbols =
  buckets :: addr
  count :: size_t
  capacity :: size_t

text \<open>
  The memory the table works on: the symbols, and the arrays of symbol pointers (an array
  is addressed by its block address and an index).
\<close>

record sym_mem =
  syms :: "addr \<Rightarrow> dy_symbol"
  arrays :: "addr \<Rightarrow> nat \<Rightarrow> addr"

text \<open>
  A \<open>struct dy_symbol**\<close>: the address of an array element \<open>&buckets[i]\<close> or of the
  \<open>next_in_table\<close> field of a symbol.
\<close>

datatype slot = BucketSlot addr nat | NextSlot addr

fun read_slot :: "sym_mem \<Rightarrow> slot \<Rightarrow> addr option" where
  "read_slot m (BucketSlot b i) = (if b = 0 then None else Some (arrays m b i))"
| "read_slot m (NextSlot s) = (if s = 0 then None else Some (next_in_table (syms m s)))"

fun write_slot :: "sym_mem \<Rightarrow> slot \<Rightarrow> addr \<Rightarrow> sym_mem option" where
  "write_slot m (BucketSlot b i) v =
     (if b = 0 then None else Some (m\<lparr>arrays := (arrays m)(b := (arrays m b)(i := v))\<rparr>))"
| "write_slot m (NextSlot s) v =
     (if s = 0 then None else Some (m\<lparr>syms := (syms m)(s := (syms m s)\<lparr>next_in_table := v\<rparr>)\<rparr>))"

definition sizeof_ptr :: size_t where
  "sizeof_ptr = 8"

definition DYSL_SYMBOLS_INITIAL_CAPACITY :: size_t where
  "DYSL_SYMBOLS_INITIAL_CAPACITY = 64"

text \<open>
  \<open>(size_t)(capacity * DYSL_SYMBOLS_LOAD_FACTOR)\<close> with the load factor 0.75. The product is
  computed in \<open>double\<close>; it is exact, and its truncation is \<open>capacity * 3 div 4\<close>, for every
  capacity below \<open>2^51\<close>, which is the range this model covers.
\<close>

definition grow_threshold :: "size_t \<Rightarrow> size_t" where
  "grow_threshold cap = cap * 3 div 4"

subsection \<open>Symbol table API\<close>

text \<open>\<open>for (size_t i = 0; i < n; i++) buckets[i] = NULL;\<close>\<close>

function null_fill :: "sym_mem \<Rightarrow> addr \<Rightarrow> size_t \<Rightarrow> size_t \<Rightarrow> sym_mem option" where
  "null_fill m b n i =
     (if i < n then do { m1 \<leftarrow> write_slot m (BucketSlot b i) 0; null_fill m1 b n (Suc i) }
      else Some m)"
  by pat_completeness auto
termination
  by (relation "measure (\<lambda>(m, b, n, i). n - i)") auto

declare null_fill.simps [simp del]

definition dSymbols_init ::
  "dy_symbols \<Rightarrow> sym_mem \<Rightarrow> 'ud dysl_allocator \<Rightarrow> size_t \<Rightarrow>
   (dy_symbols \<times> sym_mem \<times> 'ud dysl_allocator) option" where
  "dSymbols_init t m a initial_capacity =
     (case dAlloc_alloc a (sizeof_ptr * initial_capacity) of (b, a1) \<Rightarrow>
        do {
          m1 \<leftarrow> null_fill m b initial_capacity 0;
          Some (t\<lparr>count := 0, capacity := initial_capacity, buckets := b\<rparr>, m1, a1)
        })"

text \<open>
  The loop of \<open>dSymbols_lookup\<close>. The result is the slot and the flag \<open>*found\<close>.
\<close>

partial_function (option) lookup_loop ::
  "sym_mem \<Rightarrow> slot \<Rightarrow> bytes \<Rightarrow> size_t \<Rightarrow> dy_hash_t \<Rightarrow> (slot \<times> bool) option" where
  "lookup_loop m sl nm len h =
     do {
       symb \<leftarrow> read_slot m sl;
       if symb = 0 then Some (sl, False)
       else do {
         eq \<leftarrow> (if hash (syms m symb) = h \<and> length_sym (syms m symb) = len
                then dSlice_equals (name (syms m symb)) (length_sym (syms m symb)) nm len
                else Some False);
         if eq then Some (sl, True) else lookup_loop m (NextSlot symb) nm len h
       }
     }"

definition dSymbols_lookup ::
  "dy_symbols \<Rightarrow> sym_mem \<Rightarrow> bytes \<Rightarrow> size_t \<Rightarrow> dy_hash_t \<Rightarrow> (slot \<times> bool) option" where
  "dSymbols_lookup t m nm len h =
     (if capacity t = 0 then None
      else lookup_loop m (BucketSlot (buckets t) (unat h mod capacity t)) nm len h)"

definition dSymbols_should_grow :: "dy_symbols \<Rightarrow> size_t \<Rightarrow> bool" where
  "dSymbols_should_grow t desired_count \<longleftrightarrow> desired_count > grow_threshold (capacity t)"

text \<open>
  The inner loop of the rehash: the chain starting at \<open>symb\<close> is moved, symbol by symbol, to
  the front of the chains of the new array.
\<close>

partial_function (option) rehash_chain ::
  "sym_mem \<Rightarrow> addr \<Rightarrow> size_t \<Rightarrow> addr \<Rightarrow> sym_mem option" where
  "rehash_chain m new_buckets new_capacity symb =
     (if symb = 0 then Some m
      else if new_capacity = 0 then None
      else
        let next_sym = next_in_table (syms m symb);
            new_index = unat (hash (syms m symb)) mod new_capacity;
            m1 = m\<lparr>syms := (syms m)(symb := (syms m symb)\<lparr>next_in_table := arrays m new_buckets new_index\<rparr>)\<rparr>;
            m2 = m1\<lparr>arrays := (arrays m1)(new_buckets := (arrays m1 new_buckets)(new_index := symb))\<rparr>
        in rehash_chain m2 new_buckets new_capacity next_sym)"

function rehash_loop ::
  "dy_symbols \<Rightarrow> sym_mem \<Rightarrow> addr \<Rightarrow> size_t \<Rightarrow> size_t \<Rightarrow> sym_mem option" where
  "rehash_loop t m new_buckets new_capacity i =
     (if i < capacity t then
        do {
          symb \<leftarrow> read_slot m (BucketSlot (buckets t) i);
          m1 \<leftarrow> rehash_chain m new_buckets new_capacity symb;
          rehash_loop t m1 new_buckets new_capacity (Suc i)
        }
      else Some m)"
  by pat_completeness auto
termination
  by (relation "measure (\<lambda>(t, m, new_buckets, new_capacity, i). capacity t - i)") auto

declare rehash_loop.simps [simp del]

definition dSymbols_resize ::
  "dy_symbols \<Rightarrow> sym_mem \<Rightarrow> 'ud dysl_allocator \<Rightarrow> size_t \<Rightarrow>
   (dy_symbols \<times> sym_mem \<times> 'ud dysl_allocator) option" where
  "dSymbols_resize t m a new_capacity =
     (case dAlloc_alloc a (sizeof_ptr * new_capacity) of (new_buckets, a1) \<Rightarrow>
        if new_buckets = 0 then Some (t, m, a1)
        else do {
          m1 \<leftarrow> null_fill m new_buckets new_capacity 0;
          m2 \<leftarrow> rehash_loop t m1 new_buckets new_capacity 0;
          Some (t\<lparr>buckets := new_buckets, capacity := new_capacity\<rparr>, m2,
                snd (dAlloc_free a1 (buckets t)))
        })"

text \<open>
  \<open>while (new_capacity * DYSL_SYMBOLS_LOAD_FACTOR < desired_count) new_capacity *= 2;\<close>
  The comparison is one of \<open>double\<close>s; below \<open>2^51\<close> it is the comparison of
  \<open>new_capacity * 3\<close> with \<open>desired_count * 4\<close>. With \<open>new_capacity = 0\<close> the loop does not
  terminate.
\<close>

partial_function (option) grow_capacity :: "size_t \<Rightarrow> size_t \<Rightarrow> size_t option" where
  "grow_capacity new_capacity desired_count =
     (if new_capacity * 3 < desired_count * 4 then grow_capacity (new_capacity * 2) desired_count
      else Some new_capacity)"

function shrink_capacity :: "size_t \<Rightarrow> size_t \<Rightarrow> size_t" where
  "shrink_capacity new_capacity desired_count =
     (if new_capacity > DYSL_SYMBOLS_INITIAL_CAPACITY \<and> desired_count < new_capacity div 4
      then shrink_capacity (new_capacity div 2) desired_count
      else new_capacity)"
  by pat_completeness auto
termination
  by (relation "measure (\<lambda>(new_capacity, desired_count). new_capacity)")
    (auto simp: DYSL_SYMBOLS_INITIAL_CAPACITY_def)

declare shrink_capacity.simps [simp del]

definition dSymbols_ensure_capacity ::
  "dy_symbols \<Rightarrow> sym_mem \<Rightarrow> 'ud dysl_allocator \<Rightarrow> size_t \<Rightarrow>
   (dy_symbols \<times> sym_mem \<times> 'ud dysl_allocator) option" where
  "dSymbols_ensure_capacity t m a desired_count =
     do {
       new_capacity \<leftarrow>
         (if desired_count > grow_threshold (capacity t)
          then grow_capacity (capacity t) desired_count
          else if desired_count < capacity t div 4 \<and> capacity t > DYSL_SYMBOLS_INITIAL_CAPACITY
          then Some (shrink_capacity (max (capacity t div 2) DYSL_SYMBOLS_INITIAL_CAPACITY) desired_count)
          else Some (capacity t));
       dSymbols_resize t m a new_capacity
     }"

text \<open>
  \<open>dSymbols_intern\<close> returns the slot; the table, the memory and the allocator are returned
  with it.
\<close>

definition dSymbols_intern ::
  "dy_symbols \<Rightarrow> sym_mem \<Rightarrow> 'ud dysl_allocator \<Rightarrow> bytes \<Rightarrow> size_t \<Rightarrow> dy_hash_t \<Rightarrow>
   (slot \<times> dy_symbols \<times> sym_mem \<times> 'ud dysl_allocator) option" where
  "dSymbols_intern t m a nm len h =
     do {
       (sl, found) \<leftarrow> dSymbols_lookup t m nm len h;
       if found then Some (sl, t, m, a)
       else
         let new_count = count t + 1 in
         if dSymbols_should_grow t new_count then
           do {
             (t1, m1, a1) \<leftarrow> dSymbols_ensure_capacity t m a new_count;
             (sl1, found1) \<leftarrow> dSymbols_lookup t1 m1 nm len h;
             Some (sl1, t1\<lparr>count := new_count\<rparr>, m1, a1)
           }
         else Some (sl, t\<lparr>count := new_count\<rparr>, m, a)
     }"

subsection \<open>The new bucket array as a block of bytes\<close>

text \<open>
  The definitions above compute the size of a request in the natural numbers and do not bound
  the arrays. For \<open>dSymbols_resize\<close>, whose \<open>new_capacity\<close> is a parameter of the caller,
  \<open>dSymbols_resize_sized\<close> is the same function with the sizes of the C program:
  \<open>sizeof(struct dy_symbol*) * new_capacity\<close> is a product of \<open>size_t\<close> values and wraps
  at \<open>2^64\<close>; the block that the allocator returns has that many bytes; and the store to
  \<open>new_buckets[i]\<close> lies inside the block only if \<open>sizeof(struct dy_symbol*) * (i + 1)\<close> is
  at most the size of the block. A store past the end of the block has no defined result. Once
  the fill loop has stored all \<open>new_capacity\<close> entries, the stores of the rehash, at indices
  below \<open>new_capacity\<close>, lie inside the block as well, so the rehash is \<open>rehash_loop\<close>.
\<close>

definition size_t_mul :: "size_t \<Rightarrow> size_t \<Rightarrow> size_t" where
  "size_t_mul x y = (x * y) mod 2 ^ 64"

function null_fill_sized :: "sym_mem \<Rightarrow> addr \<Rightarrow> size_t \<Rightarrow> size_t \<Rightarrow> size_t \<Rightarrow> sym_mem option" where
  "null_fill_sized m b block_size n i =
     (if i < n then
        (if sizeof_ptr * Suc i \<le> block_size
         then do { m1 \<leftarrow> write_slot m (BucketSlot b i) 0; null_fill_sized m1 b block_size n (Suc i) }
         else None)
      else Some m)"
  by pat_completeness auto
termination
  by (relation "measure (\<lambda>(m, b, block_size, n, i). n - i)") auto

declare null_fill_sized.simps [simp del]

definition dSymbols_resize_sized ::
  "dy_symbols \<Rightarrow> sym_mem \<Rightarrow> 'ud dysl_allocator \<Rightarrow> size_t \<Rightarrow>
   (dy_symbols \<times> sym_mem \<times> 'ud dysl_allocator) option" where
  "dSymbols_resize_sized t m a new_capacity =
     (let block_size = size_t_mul sizeof_ptr new_capacity in
      case dAlloc_alloc a block_size of (new_buckets, a1) \<Rightarrow>
        if new_buckets = 0 then Some (t, m, a1)
        else do {
          m1 \<leftarrow> null_fill_sized m new_buckets block_size new_capacity 0;
          m2 \<leftarrow> rehash_loop t m1 new_buckets new_capacity 0;
          Some (t\<lparr>buckets := new_buckets, capacity := new_capacity\<rparr>, m2,
                snd (dAlloc_free a1 (buckets t)))
        })"


section \<open>Global state and the interpreter context\<close>

record dysl =
  global :: addr

record 'ud dy_global =
  gc :: "'ud dy_gc"
  symbols :: dy_symbols
  main_state :: addr

text \<open>
  The memory \<open>dysl_new\<close> works on: the \<open>struct dysl\<close> and \<open>struct dy_global\<close> blocks, the
  object headers and the memory of the symbol table.
\<close>

record 'ud runtime =
  dysls :: "addr \<Rightarrow> dysl"
  globals :: "addr \<Rightarrow> 'ud dy_global"
  objects :: "addr \<Rightarrow> dy_object"
  symbol_mem :: sym_mem

text \<open>\<open>sizeof(struct dysl)\<close> and \<open>sizeof(struct dy_global)\<close> on a platform with 8-byte pointers.\<close>

definition sizeof_dysl :: size_t where
  "sizeof_dysl = 8"

definition sizeof_dy_global :: size_t where
  "sizeof_dy_global = 96"

text \<open>
  \<open>dGlobal_init\<close> gets the allocator by value and passes the address of its copy to
  \<open>dSymbols_init\<close>. All copies share the user data, so the allocator after the call is
  returned, and the copy stored in the collector is brought up to date with it.
\<close>

definition dGlobal_init ::
  "'ud runtime \<Rightarrow> addr \<Rightarrow> 'ud dysl_allocator \<Rightarrow> ('ud runtime \<times> 'ud dysl_allocator) option" where
  "dGlobal_init r g a =
     (if g = 0 then None
      else do {
        h \<leftarrow> dGC_init \<lparr>gc_struct = gc (globals r g), objs = objects r\<rparr> a;
        (t, m, a1) \<leftarrow>
          dSymbols_init (symbols (globals r g)) (symbol_mem r) a DYSL_SYMBOLS_INITIAL_CAPACITY;
        Some (r\<lparr>globals := (globals r)
                  (g := (globals r g)\<lparr>gc := (gc_struct h)\<lparr>allocator := a1\<rparr>, symbols := t\<rparr>),
                objects := objs h, symbol_mem := m\<rparr>, a1)
      })"

text \<open>
  \<open>dysl_new\<close> returns the pointer to the new context (\<open>0\<close> for \<open>NULL\<close>), the memory and the
  allocator after the call.
\<close>

definition dysl_new ::
  "'ud dysl_allocator \<Rightarrow> 'ud runtime \<Rightarrow> (addr \<times> 'ud runtime \<times> 'ud dysl_allocator) option" where
  "dysl_new a r =
     (case dAlloc_alloc a sizeof_dysl of (D, a1) \<Rightarrow>
        if D = 0 then Some (0, r, a1)
        else
          (case dAlloc_alloc a1 sizeof_dy_global of (g, a2) \<Rightarrow>
             let r1 = r\<lparr>dysls := (dysls r)(D := (dysls r D)\<lparr>global := g\<rparr>)\<rparr> in
             if g = 0 then Some (0, r1, snd (dAlloc_free a2 D))
             else do {
               (r2, a3) \<leftarrow> dGlobal_init r1 g a2;
               Some (D, r2\<lparr>globals := (globals r2)(g := (globals r2 g)\<lparr>main_state := D\<rparr>)\<rparr>, a3)
             }))"

text \<open>Never written memory, as the input of the concrete runs below.\<close>

definition junk_symbol :: dy_symbol where
  "junk_symbol = \<lparr>header = junk, next_in_table = 0, length_sym = 0, hash = 0, name = []\<rparr>"

definition blank_mem :: sym_mem where
  "blank_mem = \<lparr>syms = (\<lambda>_. junk_symbol), arrays = (\<lambda>_ _. 0)\<rparr>"

definition blank_runtime :: "'ud dysl_allocator \<Rightarrow> 'ud runtime" where
  "blank_runtime a =
     \<lparr>dysls = (\<lambda>_. \<lparr>global = 0\<rparr>),
      globals = (\<lambda>_. \<lparr>gc = \<lparr>allocator = a, root = junk, gen = junk\<rparr>,
                       symbols = \<lparr>buckets = 0, count = 0, capacity = 0\<rparr>, main_state = 0\<rparr>),
      objects = (\<lambda>_. junk), symbol_mem = blank_mem\<rparr>"


section \<open>Callers of the symbol table and the abstraction of its memory\<close>

text \<open>
  \<open>dSymbols_intern\<close> leaves it to the caller to allocate the symbol and to place it in the
  returned slot. \<open>place_symbol\<close> is that step for a symbol at address \<open>p\<close>: the caller fills in
  the length, the hash and the bytes of the new symbol, sets its \<open>next_in_table\<close> to \<open>NULL\<close>
  (the symbol becomes the last of its chain) and stores its address in the slot.
\<close>

definition place_symbol ::
  "sym_mem \<Rightarrow> slot \<Rightarrow> addr \<Rightarrow> bytes \<Rightarrow> size_t \<Rightarrow> dy_hash_t \<Rightarrow> sym_mem option" where
  "place_symbol m sl p nm len h =
     (if p = 0 then None
      else write_slot
        (m\<lparr>syms := (syms m)
           (p := (syms m p)\<lparr>next_in_table := 0, length_sym := len, hash := h, name := nm\<rparr>)\<rparr>)
        sl p)"

text \<open>
  Interning a byte sequence as a caller does it, with the hash function \<open>H\<close> of the caller
  (\<open>dHash_slice\<close> in the source): \<open>dSymbols_intern\<close>, and when the returned slot is empty,
  a new symbol at the address \<open>fresh\<close> is placed in it. The result is the slot, the symbol
  in it, and the new table, memory and allocator.
\<close>

definition intern_symbol ::
  "(bytes \<Rightarrow> dy_hash_t) \<Rightarrow> dy_symbols \<Rightarrow> sym_mem \<Rightarrow> 'ud dysl_allocator \<Rightarrow> addr \<Rightarrow> bytes \<Rightarrow>
   (slot \<times> addr \<times> dy_symbols \<times> sym_mem \<times> 'ud dysl_allocator) option" where
  "intern_symbol H t m a fresh nm =
     do {
       (sl, t1, m1, a1) \<leftarrow> dSymbols_intern t m a nm (length nm) (H nm);
       p \<leftarrow> read_slot m1 sl;
       if p \<noteq> 0 then Some (sl, p, t1, m1, a1)
       else do {
         m2 \<leftarrow> place_symbol m1 sl fresh nm (length nm) (H nm);
         Some (sl, fresh, t1, m2, a1)
       }
     }"

text \<open>
  Interning a list of names, one after the other, each with the address to use if a symbol
  has to be created. The result lists, for every name, the slot and the symbol that
  interning it gave.
\<close>

fun intern_all ::
  "(bytes \<Rightarrow> dy_hash_t) \<Rightarrow> dy_symbols \<Rightarrow> sym_mem \<Rightarrow> 'ud dysl_allocator \<Rightarrow> (addr \<times> bytes) list \<Rightarrow>
   ((slot \<times> addr) list \<times> dy_symbols \<times> sym_mem \<times> 'ud dysl_allocator) option" where
  "intern_all H t m a [] = Some ([], t, m, a)"
| "intern_all H t m a ((fresh, nm) # rest) =
     do {
       (sl, p, t1, m1, a1) \<leftarrow> intern_symbol H t m a fresh nm;
       (rs, t2, m2, a2) \<leftarrow> intern_all H t1 m1 a1 rest;
       Some ((sl, p) # rs, t2, m2, a2)
     }"

text \<open>The hash of a whole byte sequence, as \<open>dHash_slice\<close> computes it.\<close>

definition hash_bytes :: "bytes \<Rightarrow> dy_hash_t" where
  "hash_bytes nm = (case dHash_fnv1a nm (length nm) of Some h \<Rightarrow> h | None \<Rightarrow> 0)"

text \<open>
  \<open>chain m p xs\<close>: the bucket chain that starts at the pointer \<open>p\<close> consists of the symbols
  \<open>xs\<close>, in this order, and ends with \<open>NULL\<close>.
\<close>

fun chain :: "sym_mem \<Rightarrow> addr \<Rightarrow> addr list \<Rightarrow> bool" where
  "chain m p [] \<longleftrightarrow> p = 0"
| "chain m p (x # xs) \<longleftrightarrow> p = x \<and> x \<noteq> 0 \<and> chain m (next_in_table (syms m x)) xs"

text \<open>
  \<open>table_ok t m css\<close>: the table has a bucket array and a positive capacity; bucket \<open>i\<close>
  holds the chain \<open>css ! i\<close>; every symbol sits in the bucket of its hash; no symbol occurs
  twice; every symbol stores the length of its name; no two symbols have the same name.
\<close>

definition table_ok :: "dy_symbols \<Rightarrow> sym_mem \<Rightarrow> addr list list \<Rightarrow> bool" where
  "table_ok t m css \<longleftrightarrow>
     buckets t \<noteq> 0 \<and> 0 < capacity t \<and> length css = capacity t \<and>
     (\<forall>i<capacity t. chain m (arrays m (buckets t) i) (css ! i)) \<and>
     (\<forall>i<capacity t. \<forall>s\<in>set (css ! i). unat (hash (syms m s)) mod capacity t = i) \<and>
     distinct (concat css) \<and>
     (\<forall>s\<in>set (concat css). length_sym (syms m s) = length (name (syms m s))) \<and>
     distinct (map (\<lambda>s. name (syms m s)) (concat css))"

text \<open>
  The contract of an allocator towards one client, with \<open>live ud b\<close> for ``in the allocator
  state \<open>ud\<close> the block \<open>b\<close> is allocated'': an allocation never returns an allocated block,
  keeps allocated blocks allocated and marks the returned block allocated; releasing a block
  keeps the other blocks allocated.
\<close>

definition alloc_contract :: "('ud \<Rightarrow> addr \<Rightarrow> bool) \<Rightarrow> 'ud dysl_allocator \<Rightarrow> bool" where
  "alloc_contract live a \<longleftrightarrow>
     (\<forall>ud sz. case fn a ud 0 0 sz of (p, ud') \<Rightarrow>
        (p \<noteq> 0 \<longrightarrow> live ud' p) \<and> (\<forall>b. live ud b \<longrightarrow> p \<noteq> b \<and> live ud' b)) \<and>
     (\<forall>ud b p. live ud b \<and> p \<noteq> b \<longrightarrow> live (snd (fn a ud p 0 0)) b)"

text \<open>
  \<open>table_inv H live t m css a\<close>: a well-formed table whose symbols carry the hash \<open>H\<close> of
  their names, whose count is the number of its symbols, and whose bucket array is a block
  allocated from the allocator \<open>a\<close>.
\<close>

definition table_inv ::
  "(bytes \<Rightarrow> dy_hash_t) \<Rightarrow> ('ud \<Rightarrow> addr \<Rightarrow> bool) \<Rightarrow> dy_symbols \<Rightarrow> sym_mem \<Rightarrow> addr list list \<Rightarrow>
   'ud dysl_allocator \<Rightarrow> bool" where
  "table_inv H live t m css a \<longleftrightarrow>
     table_ok t m css \<and>
     (\<forall>s\<in>set (concat css). hash (syms m s) = H (name (syms m s))) \<and>
     count t = length (concat css) \<and>
     alloc_contract live a \<and> live (user_data a) (buckets t)"

text \<open>Which blocks the test allocator has handed out and not got back.\<close>

definition test_live :: "nat \<times> nat \<times> addr list \<Rightarrow> addr \<Rightarrow> bool" where
  "test_live ud b = (case ud of (lst, budget, live) \<Rightarrow> 0 < b \<and> b \<le> lst \<and> b \<in> set live)"


text \<open>
  What the loop of \<open>dSymbols_lookup\<close> computes on a chain: the slot that holds the first
  symbol satisfying \<open>P\<close>, or the slot behind the last symbol. \<open>key_of\<close> is the test the loop
  applies when the stored length is the length of the stored name.
\<close>

fun walk_slot :: "(addr \<Rightarrow> bool) \<Rightarrow> slot \<Rightarrow> addr list \<Rightarrow> slot \<times> bool" where
  "walk_slot P sl [] = (sl, False)"
| "walk_slot P sl (x # xs) = (if P x then (sl, True) else walk_slot P (NextSlot x) xs)"

definition key_of :: "sym_mem \<Rightarrow> bytes \<Rightarrow> dy_hash_t \<Rightarrow> addr \<Rightarrow> bool" where
  "key_of m nm h s \<longleftrightarrow> hash (syms m s) = h \<and> name (syms m s) = nm"

text \<open>
  What the rehash computes: each symbol, in the order of the traversal, is pushed to the front
  of the chain with the index \<open>ix\<close> gives it. \<open>same_data m' m\<close>: the two memories agree on
  every field of every symbol except \<open>next_in_table\<close>.
\<close>

definition push_all :: "(addr \<Rightarrow> nat) \<Rightarrow> addr list \<Rightarrow> addr list list \<Rightarrow> addr list list" where
  "push_all ix xs cs = fold (\<lambda>s cs. cs[ix s := s # cs ! ix s]) xs cs"

definition same_data :: "sym_mem \<Rightarrow> sym_mem \<Rightarrow> bool" where
  "same_data m' m \<longleftrightarrow>
     (\<forall>s. header (syms m' s) = header (syms m s) \<and> length_sym (syms m' s) = length_sym (syms m s) \<and>
          hash (syms m' s) = hash (syms m s) \<and> name (syms m' s) = name (syms m s))"

text \<open>A table with one bucket and one symbol, as a concrete input.\<close>

definition table_one :: dy_symbols where
  "table_one = \<lparr>buckets = 7, count = 1, capacity = 1\<rparr>"

definition mem_one :: sym_mem where
  "mem_one =
     \<lparr>syms = (\<lambda>_. junk_symbol)
        (5 := \<lparr>header = junk, next_in_table = 0, length_sym = 1, hash = 3, name = [97]\<rparr>),
      arrays = (\<lambda>_ _. 0)(7 := (\<lambda>_. 0)(0 := 5))\<rparr>"

text \<open>
  An empty table with two buckets whose array is the block 1 of the test allocator, as a
  concrete input.
\<close>

definition table_two :: dy_symbols where
  "table_two = \<lparr>buckets = 1, count = 0, capacity = 2\<rparr>"

definition allocator_two :: "(nat \<times> nat \<times> addr list) dysl_allocator" where
  "allocator_two = \<lparr>user_data = (1, 5, [1]), fn = test_fn\<rparr>"

text \<open>Fifty distinct names of four bytes, and fifty addresses for their symbols.\<close>

definition fifty_names :: "bytes list" where
  "fifty_names = map (\<lambda>i. [0, 0, 0, of_nat i]) [0..<50]"

definition fifty_addrs :: "addr list" where
  "fifty_addrs = [100..<150]"


section \<open>Object tracking: lemmas\<close>

lemma cell_put: "cell (put h p v) q = (if q = p then v else cell h q)"
  by (cases p; cases q) auto

lemma allocator_put: "allocator (gc_struct (put h p v)) = allocator (gc_struct h)"
  by (cases p) auto

lemma get_next_eq: "p \<noteq> Ptr 0 \<Longrightarrow> get_next h p = Some (next (cell h p))"
  by (simp add: get_next_def load_def)

lemma get_previous_eq: "p \<noteq> Ptr 0 \<Longrightarrow> get_previous h p = Some (previous (cell h p))"
  by (simp add: get_previous_def load_def)

lemma set_next_eq: "p \<noteq> Ptr 0 \<Longrightarrow> set_next h p v = Some (put h p ((cell h p)\<lparr>next := v\<rparr>))"
  by (simp add: set_next_def load_def store_def)

lemma set_previous_eq:
  "p \<noteq> Ptr 0 \<Longrightarrow> set_previous h p v = Some (put h p ((cell h p)\<lparr>previous := v\<rparr>))"
  by (simp add: set_previous_def load_def store_def)

lemma set_tag_eq: "p \<noteq> Ptr 0 \<Longrightarrow> set_tag h p v = Some (put h p ((cell h p)\<lparr>tag := v\<rparr>))"
  by (simp add: set_tag_def load_def store_def)

lemmas access_eqs = get_next_eq get_previous_eq set_next_eq set_previous_eq set_tag_eq

lemma dObj_link_cells:
  assumes "x \<noteq> Ptr 0" "l \<noteq> Ptr 0" "next (cell h l) \<noteq> Ptr 0" "x \<noteq> l" "x \<noteq> next (cell h l)"
  shows "\<exists>h'. dObj_link h x l = Some h' \<and>
     (\<forall>q. next (cell h' q) = (if q = l then x else if q = x then next (cell h l) else next (cell h q))) \<and>
     (\<forall>q. previous (cell h' q) =
        (if q = next (cell h l) then x else if q = x then l else previous (cell h q))) \<and>
     (\<forall>q. tag (cell h' q) = tag (cell h q)) \<and>
     allocator (gc_struct h') = allocator (gc_struct h)"
  using assms by (simp add: dObj_link_def access_eqs cell_put allocator_put)

lemma dObj_unlink_cells:
  assumes "x \<noteq> Ptr 0" "previous (cell h x) \<noteq> Ptr 0" "next (cell h x) \<noteq> Ptr 0"
    "x \<noteq> previous (cell h x)" "x \<noteq> next (cell h x)"
  shows "\<exists>h'. dObj_unlink h x = Some h' \<and>
     (\<forall>q. next (cell h' q) =
        (if q = x then x else if q = previous (cell h x) then next (cell h x) else next (cell h q))) \<and>
     (\<forall>q. previous (cell h' q) =
        (if q = x then x else if q = next (cell h x) then previous (cell h x) else previous (cell h q))) \<and>
     (\<forall>q. tag (cell h' q) = tag (cell h q)) \<and>
     allocator (gc_struct h') = allocator (gc_struct h)"
  using assms by (simp add: dObj_unlink_def dObj_close_def access_eqs cell_put allocator_put)


lemma links_frame:
  "\<forall>q\<in>set (butlast zs). next (cell h' q) = next (cell h q) \<Longrightarrow>
   \<forall>q\<in>set (tl zs). previous (cell h' q) = previous (cell h q) \<Longrightarrow>
   links h' zs = links h zs"
  by (induction h zs rule: links.induct) auto

lemma in_set_tlD: "x \<in> set (tl zs) \<Longrightarrow> x \<in> set zs"
  by (cases zs) auto

lemma hd_notin_tl: "distinct zs \<Longrightarrow> zs \<noteq> [] \<Longrightarrow> hd zs \<notin> set (tl zs)"
  by (cases zs) auto

lemma last_notin_butlast: "distinct zs \<Longrightarrow> zs \<noteq> [] \<Longrightarrow> last zs \<notin> set (butlast zs)"
  by (cases zs rule: rev_cases) auto

lemma links_frame_except:
  assumes "\<And>q. q \<notin> N \<Longrightarrow> next (cell h' q) = next (cell h q)"
    and "\<And>q. q \<notin> P \<Longrightarrow> previous (cell h' q) = previous (cell h q)"
    and "N \<inter> set (butlast zs) = {}" and "P \<inter> set (tl zs) = {}"
  shows "links h' zs = links h zs"
  by (rule links_frame) (use assms in blast)+

lemma links_append:
  "as \<noteq> [] \<Longrightarrow> cs \<noteq> [] \<Longrightarrow>
   links h (as @ cs) \<longleftrightarrow>
     links h as \<and> links h cs \<and> next (cell h (last as)) = hd cs \<and> previous (cell h (hd cs)) = last as"
proof (induction h as rule: links.induct)
  case (1 h)
  then show ?case by simp
next
  case (2 h a)
  then show ?case by (cases cs) auto
next
  case (3 h a b zs)
  then show ?case by auto
qed

lemma ring_next_hd: "ring h l xs \<Longrightarrow> next (cell h l) = hd (xs @ [l])"
  by (cases xs) (auto simp: ring_def)

lemma ring_frame:
  assumes "ring h l xs"
    and "\<forall>q\<in>set (l # xs). next (cell h' q) = next (cell h q) \<and>
           previous (cell h' q) = previous (cell h q)"
  shows "ring h' l xs"
proof -
  have "links h' (l # xs @ [l]) = links h (l # xs @ [l])"
    by (rule links_frame) (use assms(2) in \<open>auto simp: butlast_append\<close>)
  then show ?thesis using assms(1) by (simp add: ring_def)
qed

lemma ring_link:
  assumes r: "ring h l xs" and x: "x \<notin> set (l # xs)" "x \<noteq> Ptr 0"
  shows "\<exists>h'. dObj_link h x l = Some h' \<and> ring h' l (x # xs) \<and>
     (\<forall>q. q \<notin> set (x # l # xs) \<longrightarrow>
        next (cell h' q) = next (cell h q) \<and> previous (cell h' q) = previous (cell h q)) \<and>
     (\<forall>q. tag (cell h' q) = tag (cell h q)) \<and>
     allocator (gc_struct h') = allocator (gc_struct h)"
proof -
  let ?n = "next (cell h l)"
  have n: "?n = hd (xs @ [l])" using r by (rule ring_next_hd)
  have nin: "?n \<in> set (l # xs)" unfolding n by (cases xs) auto
  have l0: "l \<noteq> Ptr 0" and n0: "?n \<noteq> Ptr 0" using r nin by (auto simp: ring_def)
  have xl: "x \<noteq> l" and xn: "x \<noteq> ?n" using x nin by auto
  from dObj_link_cells [OF x(2) l0 n0 xl xn] obtain h' where
    h': "dObj_link h x l = Some h'"
    and nx: "\<And>q. next (cell h' q) = (if q = l then x else if q = x then ?n else next (cell h q))"
    and pv: "\<And>q. previous (cell h' q) = (if q = ?n then x else if q = x then l else previous (cell h q))"
    and tg: "\<And>q. tag (cell h' q) = tag (cell h q)"
    and al: "allocator (gc_struct h') = allocator (gc_struct h)"
    by blast
  have old: "links h (xs @ [l])" "distinct (l # xs)" "Ptr 0 \<notin> set (l # xs)"
    using r by (cases xs; auto simp: ring_def)+
  have dz: "distinct (xs @ [l])" using old(2) by auto
  have "links h' (xs @ [l]) = links h (xs @ [l])"
  proof (rule links_frame_except [where N = "{l, x}" and P = "{?n, x}"])
    show "{l, x} \<inter> set (butlast (xs @ [l])) = {}" using old(2) x by (auto simp: butlast_append)
    show "{?n, x} \<inter> set (tl (xs @ [l])) = {}"
      using hd_notin_tl [OF dz] x unfolding n by (auto dest!: in_set_tlD)
  qed (simp_all add: nx pv)
  then have "links h' (l # x # xs @ [l])"
    using old n xl xn by (cases xs) (auto simp: nx pv)
  then have "ring h' l (x # xs)" using old x by (auto simp: ring_def)
  moreover have "\<forall>q. q \<notin> set (x # l # xs) \<longrightarrow>
        next (cell h' q) = next (cell h q) \<and> previous (cell h' q) = previous (cell h q)"
    using nin by (auto simp: nx pv)
  ultimately show ?thesis using h' tg al by blast
qed

lemma ring_unlink:
  assumes r: "ring h l xs" and x: "x \<in> set xs"
  shows "\<exists>h'. dObj_unlink h x = Some h' \<and> ring h' l (remove1 x xs) \<and> closed h' x \<and>
     (\<forall>q. q \<notin> set (l # xs) \<longrightarrow>
        next (cell h' q) = next (cell h q) \<and> previous (cell h' q) = previous (cell h q)) \<and>
     (\<forall>q. tag (cell h' q) = tag (cell h q)) \<and>
     allocator (gc_struct h') = allocator (gc_struct h)"
proof -
  from x obtain ys zs where xs: "xs = ys @ x # zs" "x \<notin> set ys"
    by (auto dest: split_list_first)
  let ?p = "previous (cell h x)" and ?n = "next (cell h x)"
  let ?as = "l # ys" and ?cs = "zs @ [l]"
  have d: "distinct (l # ys @ x # zs)" "Ptr 0 \<notin> set (l # ys @ x # zs)"
    and lk: "links h (?as @ x # ?cs)"
    using r by (simp_all add: ring_def xs)
  from lk have lk1: "links h ?as" "links h (x # ?cs)" "next (cell h (last ?as)) = x" "?p = last ?as"
    using links_append [of ?as "x # ?cs" h] by simp_all
  from lk1(2) have lk2: "links h ?cs" "?n = hd ?cs" "previous (cell h (hd ?cs)) = x"
    by (cases zs; simp)+
  have pin: "?p \<in> set ?as" unfolding lk1(4) by (rule last_in_set) simp
  have nin: "?n \<in> set ?cs" unfolding lk2(2) by (rule hd_in_set) simp
  have x0: "x \<noteq> Ptr 0" and p0: "?p \<noteq> Ptr 0" and n0: "?n \<noteq> Ptr 0"
    using d pin nin by auto
  have xp: "x \<noteq> ?p" and xn: "x \<noteq> ?n" using d pin nin by auto
  from dObj_unlink_cells [OF x0 p0 n0 xp xn] obtain h' where
    h': "dObj_unlink h x = Some h'"
    and nx: "\<And>q. next (cell h' q) = (if q = x then x else if q = ?p then ?n else next (cell h q))"
    and pv: "\<And>q. previous (cell h' q) = (if q = x then x else if q = ?n then ?p else previous (cell h q))"
    and tg: "\<And>q. tag (cell h' q) = tag (cell h q)"
    and al: "allocator (gc_struct h') = allocator (gc_struct h)"
    by blast
  have rm: "remove1 x xs = ys @ zs" using xs by (simp add: remove1_append)
  have das: "distinct ?as" and dcs: "distinct ?cs" using d(1) by auto
  have a: "links h' ?as = links h ?as"
  proof (rule links_frame_except [where N = "{x, ?p}" and P = "{x, ?n}"])
    show "{x, ?p} \<inter> set (butlast ?as) = {}"
      using last_notin_butlast [OF das] d(1) unfolding lk1(4) by (auto dest: in_set_butlastD)
    show "{x, ?n} \<inter> set (tl ?as) = {}" using nin d(1) by auto
  qed (simp_all add: nx pv)
  have c: "links h' ?cs = links h ?cs"
  proof (rule links_frame_except [where N = "{x, ?p}" and P = "{x, ?n}"])
    show "{x, ?p} \<inter> set (butlast ?cs) = {}" using pin d(1) by (auto simp: butlast_append)
    show "{x, ?n} \<inter> set (tl ?cs) = {}"
      using hd_notin_tl [OF dcs] d(1) unfolding lk2(2) by (auto dest!: in_set_tlD)
  qed (simp_all add: nx pv)
  have e1: "next (cell h' (last ?as)) = hd ?cs"
    using nx [of ?p] xp lk1(4) lk2(2) by simp
  have e2: "previous (cell h' (hd ?cs)) = last ?as"
    using pv [of ?n] xn lk1(4) lk2(2) by simp
  have "links h' (?as @ ?cs) \<longleftrightarrow>
     links h' ?as \<and> links h' ?cs \<and> next (cell h' (last ?as)) = hd ?cs \<and>
     previous (cell h' (hd ?cs)) = last ?as"
    by (rule links_append) simp_all
  with a c lk1(1) lk2(1) e1 e2 have "links h' (?as @ ?cs)" by blast
  then have "ring h' l (ys @ zs)" using d by (simp add: ring_def)
  moreover have "closed h' x" by (simp add: closed_def nx pv)
  moreover have "\<forall>q. q \<notin> set (l # xs) \<longrightarrow>
        next (cell h' q) = next (cell h q) \<and> previous (cell h' q) = previous (cell h q)"
    using pin nin xs by (auto simp: nx pv)
  ultimately show ?thesis using h' tg al rm by auto
qed

lemma ring_unique_aux:
  "links h (p # xs @ [l]) \<Longrightarrow> links h (p # ys @ [l]) \<Longrightarrow> l \<notin> set xs \<Longrightarrow> l \<notin> set ys \<Longrightarrow> xs = ys"
proof (induction xs arbitrary: p ys)
  case Nil
  then show ?case by (cases ys) auto
next
  case (Cons x xs)
  then show ?case by (cases ys) auto
qed

lemma ring_unique: "ring h l xs \<Longrightarrow> ring h l ys \<Longrightarrow> xs = ys"
  unfolding ring_def by (rule ring_unique_aux) auto

lemma ring_frame_disjoint:
  assumes "ring h l xs"
    and "\<And>q. q \<notin> A \<Longrightarrow>
        next (cell h' q) = next (cell h q) \<and> previous (cell h' q) = previous (cell h q)"
    and "A \<inter> set (l # xs) = {}"
  shows "ring h' l xs"
  by (rule ring_frame [OF assms(1)]) (use assms(2,3) in blast)

lemma tracked_link_gen:
  assumes "tracked h gs rs" "x \<notin> set (GenSentinel # RootSentinel # gs @ rs)" "x \<noteq> Ptr 0"
  shows "\<exists>h'. dObj_link h x GenSentinel = Some h' \<and> tracked h' (x # gs) rs \<and>
     (\<forall>q. tag (cell h' q) = tag (cell h q)) \<and> allocator (gc_struct h') = allocator (gc_struct h)"
proof -
  from assms have r: "ring h GenSentinel gs" and x: "x \<notin> set (GenSentinel # gs)"
    by (auto simp: tracked_def)
  from ring_link [OF r x assms(3)] obtain h' where
    h': "dObj_link h x GenSentinel = Some h'" "ring h' GenSentinel (x # gs)"
    and fr: "\<And>q. q \<notin> set (x # GenSentinel # gs) \<Longrightarrow>
        next (cell h' q) = next (cell h q) \<and> previous (cell h' q) = previous (cell h q)"
    and tg: "\<forall>q. tag (cell h' q) = tag (cell h q)" "allocator (gc_struct h') = allocator (gc_struct h)"
    by blast
  have "ring h' RootSentinel rs"
    proof (rule ring_frame_disjoint [where A = "set (x # GenSentinel # gs)" and h = h])
    show "set (x # GenSentinel # gs) \<inter> set (RootSentinel # rs) = {}" using assms by (auto simp: tracked_def)
  qed (use assms fr in \<open>simp_all add: tracked_def\<close>)
  with h' tg assms show ?thesis by (auto simp: tracked_def)
qed

lemma tracked_link_root:
  assumes "tracked h gs rs" "x \<notin> set (GenSentinel # RootSentinel # gs @ rs)" "x \<noteq> Ptr 0"
  shows "\<exists>h'. dObj_link h x RootSentinel = Some h' \<and> tracked h' gs (x # rs) \<and>
     (\<forall>q. tag (cell h' q) = tag (cell h q)) \<and> allocator (gc_struct h') = allocator (gc_struct h)"
proof -
  from assms have r: "ring h RootSentinel rs" and x: "x \<notin> set (RootSentinel # rs)"
    by (auto simp: tracked_def)
  from ring_link [OF r x assms(3)] obtain h' where
    h': "dObj_link h x RootSentinel = Some h'" "ring h' RootSentinel (x # rs)"
    and fr: "\<And>q. q \<notin> set (x # RootSentinel # rs) \<Longrightarrow>
        next (cell h' q) = next (cell h q) \<and> previous (cell h' q) = previous (cell h q)"
    and tg: "\<forall>q. tag (cell h' q) = tag (cell h q)" "allocator (gc_struct h') = allocator (gc_struct h)"
    by blast
  have "ring h' GenSentinel gs"
    proof (rule ring_frame_disjoint [where A = "set (x # RootSentinel # rs)" and h = h])
    show "set (x # RootSentinel # rs) \<inter> set (GenSentinel # gs) = {}" using assms by (auto simp: tracked_def)
  qed (use assms fr in \<open>simp_all add: tracked_def\<close>)
  with h' tg assms show ?thesis by (auto simp: tracked_def)
qed

lemma tracked_unlink_gen:
  assumes "tracked h gs rs" "x \<in> set gs"
  shows "\<exists>h'. dObj_unlink h x = Some h' \<and> tracked h' (remove1 x gs) rs \<and> closed h' x \<and>
     (\<forall>q. tag (cell h' q) = tag (cell h q)) \<and> allocator (gc_struct h') = allocator (gc_struct h)"
proof -
  from assms have r: "ring h GenSentinel gs" by (auto simp: tracked_def)
  from ring_unlink [OF r assms(2)] obtain h' where
    h': "dObj_unlink h x = Some h'" "ring h' GenSentinel (remove1 x gs)" "closed h' x"
    and fr: "\<And>q. q \<notin> set (GenSentinel # gs) \<Longrightarrow>
        next (cell h' q) = next (cell h q) \<and> previous (cell h' q) = previous (cell h q)"
    and tg: "\<forall>q. tag (cell h' q) = tag (cell h q)" "allocator (gc_struct h') = allocator (gc_struct h)"
    by blast
  have "ring h' RootSentinel rs"
    proof (rule ring_frame_disjoint [where A = "set (GenSentinel # gs)" and h = h])
    show "set (GenSentinel # gs) \<inter> set (RootSentinel # rs) = {}" using assms by (auto simp: tracked_def)
  qed (use assms fr in \<open>simp_all add: tracked_def\<close>)
  with h' tg assms show ?thesis by (auto simp: tracked_def)
qed

lemma tracked_unlink_root:
  assumes "tracked h gs rs" "x \<in> set rs"
  shows "\<exists>h'. dObj_unlink h x = Some h' \<and> tracked h' gs (remove1 x rs) \<and> closed h' x \<and>
     (\<forall>q. tag (cell h' q) = tag (cell h q)) \<and> allocator (gc_struct h') = allocator (gc_struct h)"
proof -
  from assms have r: "ring h RootSentinel rs" by (auto simp: tracked_def)
  from ring_unlink [OF r assms(2)] obtain h' where
    h': "dObj_unlink h x = Some h'" "ring h' RootSentinel (remove1 x rs)" "closed h' x"
    and fr: "\<And>q. q \<notin> set (RootSentinel # rs) \<Longrightarrow>
        next (cell h' q) = next (cell h q) \<and> previous (cell h' q) = previous (cell h q)"
    and tg: "\<forall>q. tag (cell h' q) = tag (cell h q)" "allocator (gc_struct h') = allocator (gc_struct h)"
    by blast
  have "ring h' GenSentinel gs"
    proof (rule ring_frame_disjoint [where A = "set (RootSentinel # rs)" and h = h])
    show "set (RootSentinel # rs) \<inter> set (GenSentinel # gs) = {}" using assms by (auto simp: tracked_def)
  qed (use assms fr in \<open>simp_all add: tracked_def\<close>)
  with h' tg assms show ?thesis by (auto simp: tracked_def)
qed

lemma tracked_not_null: "tracked h gs rs \<Longrightarrow> Ptr 0 \<notin> set (gs @ rs)"
  by (auto simp: tracked_def ring_def)

text \<open>
  Claim C9. For an object that is linked in the root set, \<open>dGC_unroot\<close> returns, leaves
  the object closed (both links point to the object itself), removes it from the root set and
  does not put it into the generation set: both lists stay well formed and the object is in
  neither.
\<close>

theorem dGC_unroot_untracks:
  assumes "tracked h gs rs" and "obj \<in> set rs"
  shows "\<exists>h'. dGC_unroot h obj = Some h' \<and> closed h' obj \<and>
     tracked h' gs (remove1 obj rs) \<and> obj \<notin> set gs \<and> obj \<notin> set (remove1 obj rs)"
proof -
  from tracked_unlink_root [OF assms] obtain h' where
    "dObj_unlink h obj = Some h'" "tracked h' gs (remove1 obj rs)" "closed h' obj"
    by blast
  moreover have "obj \<notin> set gs" "obj \<notin> set (remove1 obj rs)"
    using assms by (auto simp: tracked_def)
  ultimately show ?thesis by (simp add: dGC_unroot_def)
qed

text \<open>
  Claim C10. Closing the fresh object before linking it changes nothing: \<open>dGC_create\<close> and
  the variant with \<open>dObj_close\<close> give the same result on every heap, whatever the block
  held before, because \<open>dObj_link\<close> overwrites both links of the object.
\<close>

theorem dGC_create_closed_same: "dGC_create_closed h sz t = dGC_create h sz t"
  by (auto simp: dGC_create_closed_def dGC_create_def dGC_track_def dObj_link_def dObj_close_def
      access_eqs cell_put Let_def split: prod.splits)

lemma tracked_alloc_upd:
  "tracked (h\<lparr>gc_struct := (gc_struct h)\<lparr>allocator := a\<rparr>\<rparr>) gs rs = tracked h gs rs"
proof -
  have "cell (h\<lparr>gc_struct := (gc_struct h)\<lparr>allocator := a\<rparr>\<rparr>) = cell h"
  proof
    fix q show "cell (h\<lparr>gc_struct := (gc_struct h)\<lparr>allocator := a\<rparr>\<rparr>) q = cell h q" by (cases q) simp_all
  qed
  then have "links (h\<lparr>gc_struct := (gc_struct h)\<lparr>allocator := a\<rparr>\<rparr>) zs = links h zs" for zs
    by (intro links_frame) simp_all
  then show ?thesis by (simp add: tracked_def ring_def)
qed

lemma tracked_set_tag:
  assumes "tracked h gs rs" "x \<noteq> Ptr 0"
  shows "\<exists>h'. set_tag h x t = Some h' \<and> tracked h' gs rs \<and> tag (cell h' x) = t \<and>
     (\<forall>q. q \<noteq> x \<longrightarrow> tag (cell h' q) = tag (cell h q)) \<and> allocator (gc_struct h') = allocator (gc_struct h)"
proof -
  let ?h = "put h x ((cell h x)\<lparr>tag := t\<rparr>)"
  have "links ?h zs = links h zs" for zs
    by (intro links_frame) (simp_all add: cell_put)
  then have "tracked ?h gs rs" using assms(1) by (simp add: tracked_def ring_def)
  then show ?thesis using assms(2) by (simp add: set_tag_eq cell_put allocator_put)
qed

text \<open>
  Claim C5, as amended. Let the allocator answer the request for \<open>sz\<close> bytes with \<open>p\<close>. If
  \<open>p\<close> is \<open>NULL\<close>, then for every \<open>sz\<close> \<open>dGC_create\<close> returns \<open>NULL\<close> and the heap is the
  old one except for the allocator's own user data: both sentinels and all objects are
  untouched. If \<open>p\<close> is a block outside the two lists and \<open>sz\<close> is at least
  \<open>sizeof(struct dy_object)\<close>, \<open>dGC_create\<close> returns that block of \<open>sz\<close> bytes with the
  requested tag, linked at the head of the generation set, with the root set and the tags of
  all other objects unchanged.
\<close>

theorem dGC_create_atomic:
  assumes "dAlloc_alloc (allocator (gc_struct h)) sz = (p, a)"
  shows "(p = 0 \<longrightarrow> dGC_create h sz t = Some (Ptr 0, h\<lparr>gc_struct := (gc_struct h)\<lparr>allocator := a\<rparr>\<rparr>)) \<and>
    (p \<noteq> 0 \<and> sizeof_dy_object \<le> sz \<and> tracked h gs rs \<and> Ptr p \<notin> set (gs @ rs) \<longrightarrow>
       (\<exists>h'. dGC_create h sz t = Some (Ptr p, h') \<and> tag (cell h' (Ptr p)) = t \<and>
          tracked h' (Ptr p # gs) rs \<and>
          (\<forall>q. q \<noteq> Ptr p \<longrightarrow> tag (cell h' q) = tag (cell h q)) \<and>
          allocator (gc_struct h') = a))"
proof (intro conjI impI)
  assume "p = 0"
  with assms show "dGC_create h sz t = Some (Ptr 0, h\<lparr>gc_struct := (gc_struct h)\<lparr>allocator := a\<rparr>\<rparr>)"
    by (simp add: dGC_create_def)
next
  assume asm: "p \<noteq> 0 \<and> sizeof_dy_object \<le> sz \<and> tracked h gs rs \<and> Ptr p \<notin> set (gs @ rs)"
  let ?h1 = "h\<lparr>gc_struct := (gc_struct h)\<lparr>allocator := a\<rparr>\<rparr>"
  from asm have t1: "tracked ?h1 gs rs" by (simp add: tracked_alloc_upd)
  from asm have p0: "Ptr p \<noteq> Ptr 0" by simp
  from tracked_set_tag [OF t1 p0, of t] obtain h2 where
    h2: "set_tag ?h1 (Ptr p) t = Some h2" "tracked h2 gs rs" "tag (cell h2 (Ptr p)) = t"
      "\<forall>q. q \<noteq> Ptr p \<longrightarrow> tag (cell h2 q) = tag (cell ?h1 q)" "allocator (gc_struct h2) = allocator (gc_struct ?h1)"
    by blast
  have fresh: "Ptr p \<notin> set (GenSentinel # RootSentinel # gs @ rs)" using asm by simp
  from tracked_link_gen [OF h2(2) fresh p0] obtain h3 where
    h3: "dObj_link h2 (Ptr p) GenSentinel = Some h3" "tracked h3 (Ptr p # gs) rs"
      "\<forall>q. tag (cell h3 q) = tag (cell h2 q)" "allocator (gc_struct h3) = allocator (gc_struct h2)"
    by blast
  have tg: "tag (cell ?h1 q) = tag (cell h q)" for q by (cases q) simp_all
  have "dGC_create h sz t = Some (Ptr p, h3)"
    using assms asm h2(1) h3(1) by (simp add: dGC_create_def dGC_track_def)
  moreover have "tag (cell h3 (Ptr p)) = t" using h3(3) h2(3) by (simp del: cell.simps)
  moreover have "\<forall>q. q \<noteq> Ptr p \<longrightarrow> tag (cell h3 q) = tag (cell h q)"
    using h3(3) h2(4) tg by (simp del: cell.simps)
  moreover have "allocator (gc_struct h3) = a" using h3(4) h2(5) by simp
  ultimately show "\<exists>h'. dGC_create h sz t = Some (Ptr p, h') \<and> tag (cell h' (Ptr p)) = t \<and>
          tracked h' (Ptr p # gs) rs \<and>
          (\<forall>q. q \<noteq> Ptr p \<longrightarrow> tag (cell h' q) = tag (cell h q)) \<and>
          allocator (gc_struct h') = a"
    using h3(2) by blast
qed

text \<open>
  Claim C2, as amended. \<open>dGC_root\<close> and \<open>dGC_track\<close> only link and \<open>dGC_unroot\<close> only
  unlinks. When the caller moves an object by unlinking it first and linking it afterwards, the
  object is closed in between, and before and after the move it is in exactly one of the two
  well-formed lists.
\<close>

theorem move_by_unlink_then_link:
  assumes "tracked h gs rs"
  shows "(obj \<in> set gs \<longrightarrow>
      (\<exists>h1 h2. dObj_unlink h obj = Some h1 \<and> tracked h1 (remove1 obj gs) rs \<and> closed h1 obj \<and>
         dGC_root h1 obj = Some h2 \<and> tracked h2 (remove1 obj gs) (obj # rs))) \<and>
    (obj \<in> set rs \<longrightarrow>
      (\<exists>h1 h2. dGC_unroot h obj = Some h1 \<and> tracked h1 gs (remove1 obj rs) \<and> closed h1 obj \<and>
         dGC_track h1 obj = Some h2 \<and> tracked h2 (obj # gs) (remove1 obj rs)))"
proof (intro conjI impI)
  assume m: "obj \<in> set gs"
  from tracked_unlink_gen [OF assms m] obtain h1 where
    h1: "dObj_unlink h obj = Some h1" "tracked h1 (remove1 obj gs) rs" "closed h1 obj"
    by blast
  have "obj \<notin> set (GenSentinel # RootSentinel # remove1 obj gs @ rs)" "obj \<noteq> Ptr 0"
    using assms m by (auto simp: tracked_def ring_def)
  from tracked_link_root [OF h1(2) this] h1
  show "\<exists>h1 h2. dObj_unlink h obj = Some h1 \<and> tracked h1 (remove1 obj gs) rs \<and> closed h1 obj \<and>
         dGC_root h1 obj = Some h2 \<and> tracked h2 (remove1 obj gs) (obj # rs)"
    by (auto simp: dGC_root_def)
next
  assume m: "obj \<in> set rs"
  from tracked_unlink_root [OF assms m] obtain h1 where
    h1: "dObj_unlink h obj = Some h1" "tracked h1 gs (remove1 obj rs)" "closed h1 obj"
    by blast
  have "obj \<notin> set (GenSentinel # RootSentinel # gs @ remove1 obj rs)" "obj \<noteq> Ptr 0"
    using assms m by (auto simp: tracked_def ring_def)
  from tracked_link_gen [OF h1(2) this] h1
  show "\<exists>h1 h2. dGC_unroot h obj = Some h1 \<and> tracked h1 gs (remove1 obj rs) \<and> closed h1 obj \<and>
         dGC_track h1 obj = Some h2 \<and> tracked h2 (obj # gs) (remove1 obj rs)"
    by (auto simp: dGC_unroot_def dGC_track_def)
qed

lemma filter_remove1:
  "distinct gs \<Longrightarrow> filter P (remove1 x gs) = filter (\<lambda>g. g \<noteq> x \<and> P g) gs"
  by (auto simp: distinct_remove1_removeAll removeAll_filter_not_eq intro: filter_cong)

lemma gen_to_root_tracked:
  "tracked h gs rs \<Longrightarrow> distinct os \<Longrightarrow> set os \<subseteq> set gs \<Longrightarrow>
   \<exists>h'. gen_to_root h os = Some h' \<and>
     tracked h' (filter (\<lambda>g. g \<notin> set os) gs) (rev os @ rs) \<and>
     (\<forall>q. tag (cell h' q) = tag (cell h q)) \<and> allocator (gc_struct h') = allocator (gc_struct h)"
proof (induction os arbitrary: h gs rs)
  case Nil
  then show ?case by simp
next
  case (Cons x os)
  have dg: "distinct gs" using Cons.prems(1) by (simp add: tracked_def)
  have xg: "x \<in> set gs" using Cons.prems(3) by simp
  from tracked_unlink_gen [OF Cons.prems(1) xg] obtain h1 where
    h1: "dObj_unlink h x = Some h1" "tracked h1 (remove1 x gs) rs"
      "\<forall>q. tag (cell h1 q) = tag (cell h q)" "allocator (gc_struct h1) = allocator (gc_struct h)"
    by blast
  have "x \<notin> set (GenSentinel # RootSentinel # remove1 x gs @ rs)" "x \<noteq> Ptr 0"
    using Cons.prems(1) xg by (auto simp: tracked_def ring_def)
  from tracked_link_root [OF h1(2) this] obtain h2 where
    h2: "dObj_link h1 x RootSentinel = Some h2" "tracked h2 (remove1 x gs) (x # rs)"
      "\<forall>q. tag (cell h2 q) = tag (cell h1 q)" "allocator (gc_struct h2) = allocator (gc_struct h1)"
    by blast
  have sub: "set os \<subseteq> set (remove1 x gs)" using Cons.prems(2,3) dg by auto
  from Cons.IH [OF h2(2) _ sub] Cons.prems(2) obtain h' where
    h': "gen_to_root h2 os = Some h'"
      "tracked h' (filter (\<lambda>g. g \<notin> set os) (remove1 x gs)) (rev os @ x # rs)"
      "\<forall>q. tag (cell h' q) = tag (cell h2 q)" "allocator (gc_struct h') = allocator (gc_struct h2)"
    by auto
  have "filter (\<lambda>g. g \<notin> set os) (remove1 x gs) = filter (\<lambda>g. g \<notin> set (x # os)) gs"
    using dg by (simp add: filter_remove1)
  with h1 h2 h' show ?case by (simp add: dGC_root_def)
qed

lemma root_to_gen_tracked:
  "tracked h gs rs \<Longrightarrow> distinct os \<Longrightarrow> set os \<subseteq> set rs \<Longrightarrow>
   \<exists>h'. root_to_gen h os = Some h' \<and>
     tracked h' (rev os @ gs) (filter (\<lambda>r. r \<notin> set os) rs) \<and>
     (\<forall>q. tag (cell h' q) = tag (cell h q)) \<and> allocator (gc_struct h') = allocator (gc_struct h)"
proof (induction os arbitrary: h gs rs)
  case Nil
  then show ?case by simp
next
  case (Cons x os)
  have dr: "distinct rs" using Cons.prems(1) by (simp add: tracked_def)
  have xr: "x \<in> set rs" using Cons.prems(3) by simp
  from tracked_unlink_root [OF Cons.prems(1) xr] obtain h1 where
    h1: "dObj_unlink h x = Some h1" "tracked h1 gs (remove1 x rs)"
      "\<forall>q. tag (cell h1 q) = tag (cell h q)" "allocator (gc_struct h1) = allocator (gc_struct h)"
    by blast
  have "x \<notin> set (GenSentinel # RootSentinel # gs @ remove1 x rs)" "x \<noteq> Ptr 0"
    using Cons.prems(1) xr by (auto simp: tracked_def ring_def)
  from tracked_link_gen [OF h1(2) this] obtain h2 where
    h2: "dObj_link h1 x GenSentinel = Some h2" "tracked h2 (x # gs) (remove1 x rs)"
      "\<forall>q. tag (cell h2 q) = tag (cell h1 q)" "allocator (gc_struct h2) = allocator (gc_struct h1)"
    by blast
  have sub: "set os \<subseteq> set (remove1 x rs)" using Cons.prems(2,3) dr by auto
  from Cons.IH [OF h2(2) _ sub] Cons.prems(2) obtain h' where
    h': "root_to_gen h2 os = Some h'"
      "tracked h' (rev os @ x # gs) (filter (\<lambda>r. r \<notin> set os) (remove1 x rs))"
      "\<forall>q. tag (cell h' q) = tag (cell h2 q)" "allocator (gc_struct h') = allocator (gc_struct h2)"
    by auto
  have "filter (\<lambda>r. r \<notin> set os) (remove1 x rs) = filter (\<lambda>r. r \<notin> set (x # os)) rs"
    using dr by (simp add: filter_remove1)
  with h1 h2 h' show ?case by (simp add: dGC_unroot_def dGC_track_def)
qed

text \<open>
  Claim C8. Moving the distinct objects \<open>os\<close> from the generation set to the root set and
  back, in any order \<open>os'\<close>, returns; afterwards the root list is the old one, the generation
  set has the same members as before (the moved objects now come first), both lists are well
  formed and no tag has changed.
\<close>

theorem round_trip_restores_sets:
  assumes "tracked h gs rs" and "distinct os" and "set os \<subseteq> set gs"
    and "distinct os'" and "set os' = set os"
  shows "\<exists>h1 h2. gen_to_root h os = Some h1 \<and> root_to_gen h1 os' = Some h2 \<and>
     tracked h2 (rev os' @ filter (\<lambda>g. g \<notin> set os) gs) rs \<and>
     set (rev os' @ filter (\<lambda>g. g \<notin> set os) gs) = set gs \<and>
     (\<forall>q. tag (cell h2 q) = tag (cell h q))"
proof -
  from gen_to_root_tracked [OF assms(1-3)] obtain h1 where
    h1: "gen_to_root h os = Some h1" "tracked h1 (filter (\<lambda>g. g \<notin> set os) gs) (rev os @ rs)"
      "\<forall>q. tag (cell h1 q) = tag (cell h q)"
    by blast
  have sub: "set os' \<subseteq> set (rev os @ rs)" using assms(5) by auto
  from root_to_gen_tracked [OF h1(2) assms(4) sub] obtain h2 where
    h2: "root_to_gen h1 os' = Some h2"
      "tracked h2 (rev os' @ filter (\<lambda>g. g \<notin> set os) gs) (filter (\<lambda>r. r \<notin> set os') (rev os @ rs))"
      "\<forall>q. tag (cell h2 q) = tag (cell h1 q)"
    by blast
  have "set os \<inter> set rs = {}" using assms(1,3) by (auto simp: tracked_def)
  then have "filter (\<lambda>r. r \<notin> set os') (rev os @ rs) = rs"
    using assms(5) by (auto simp: filter_id_conv)
  moreover have "set (rev os' @ filter (\<lambda>g. g \<notin> set os) gs) = set gs"
    using assms(3,5) by auto
  ultimately show ?thesis using h1 h2 by auto
qed

lemma dGC_init_tracked:
  "\<exists>h'. dGC_init h a = Some h' \<and> tracked h' [] [] \<and> allocator (gc_struct h') = a"
  by (simp add: dGC_init_def dObj_close_def access_eqs tracked_def ring_def)

lemma dGC_init_blank: "dGC_init (blank_heap (test_allocator b)) (test_allocator b) = Some (heap_empty b)"
  by (simp add: dGC_init_def dObj_close_def access_eqs blank_heap_def heap_empty_def junk_def)

lemma tracked_heap_empty: "tracked (heap_empty b) [] []"
  by (simp add: tracked_def ring_def heap_empty_def)

lemma tracked_heap_two_gen: "tracked heap_two_gen [Ptr 2, Ptr 1] []"
  by (simp add: tracked_def ring_def heap_two_gen_def)

lemma tracked_heap_gen_root: "tracked heap_gen_root [Ptr 2] [Ptr 1]"
  by (simp add: tracked_def ring_def heap_gen_root_def)

theorem dGC_unroot_untracks_witness:
  "tracked heap_gen_root [Ptr 2] [Ptr 1] \<and> Ptr 1 \<in> set [Ptr 1] \<and>
   (\<exists>h'. dGC_unroot heap_gen_root (Ptr 1) = Some h' \<and> closed h' (Ptr 1) \<and>
      tracked h' [Ptr 2] [] \<and> Ptr 1 \<notin> set [Ptr 2])"
  using dGC_unroot_untracks [OF tracked_heap_gen_root, of "Ptr 1"] tracked_heap_gen_root by simp

theorem dGC_create_atomic_witness:
  "dAlloc_alloc (allocator (gc_struct (heap_empty 1))) 32 = (1, test_allocator 0\<lparr>user_data := (1, 0, [1])\<rparr>) \<and>
   sizeof_dy_object \<le> 32 \<and> tracked (heap_empty 1) [] [] \<and>
   (\<exists>h'. dGC_create (heap_empty 1) 32 7 = Some (Ptr 1, h') \<and> tag (cell h' (Ptr 1)) = 7 \<and>
      tracked h' [Ptr 1] [])"
proof -
  have a: "dAlloc_alloc (allocator (gc_struct (heap_empty 1))) 32 = (1, test_allocator 0\<lparr>user_data := (1, 0, [1])\<rparr>)"
    by (simp add: dAlloc_alloc_def heap_empty_def test_allocator_def test_fn_def)
  have b: "sizeof_dy_object \<le> 32" by (simp add: sizeof_dy_object_def)
  from dGC_create_atomic [OF a, where gs = "[]" and rs = "[]" and t = 7] tracked_heap_empty [of 1] a b
  show ?thesis by auto
qed

theorem move_by_unlink_then_link_witness:
  "tracked heap_two_gen [Ptr 2, Ptr 1] [] \<and> Ptr 1 \<in> set [Ptr 2, Ptr 1] \<and>
   (\<exists>h1 h2. dObj_unlink heap_two_gen (Ptr 1) = Some h1 \<and> tracked h1 [Ptr 2] [] \<and>
      closed h1 (Ptr 1) \<and> dGC_root h1 (Ptr 1) = Some h2 \<and> tracked h2 [Ptr 2] [Ptr 1])"
  using move_by_unlink_then_link [OF tracked_heap_two_gen, of "Ptr 1"] tracked_heap_two_gen
  by simp

theorem round_trip_restores_sets_witness:
  "tracked heap_two_gen [Ptr 2, Ptr 1] [] \<and> distinct [Ptr 1] \<and> set [Ptr 1] \<subseteq> set [Ptr 2, Ptr 1] \<and>
   (\<exists>h1 h2. gen_to_root heap_two_gen [Ptr 1] = Some h1 \<and> root_to_gen h1 [Ptr 1] = Some h2 \<and>
      tracked h2 [Ptr 1, Ptr 2] [] \<and> set [Ptr 1, Ptr 2] = set [Ptr 2, Ptr 1])"
  using round_trip_restores_sets [OF tracked_heap_two_gen, of "[Ptr 1]" "[Ptr 1]"]
    tracked_heap_two_gen
  by auto

text \<open>
  Claim C2 as stated fails: \<open>dGC_root\<close> does not unlink. After \<open>dGC_create\<close> and
  \<open>dGC_root\<close> the object is the first element of the generation list and of the root list,
  and its own links both point to the root sentinel: the root list is well formed, the
  generation sentinel's neighbour link dangles and the generation list is not well formed.
\<close>

theorem dGC_root_without_unlink_breaks_lists:
  "root_without_unlink = Some (Ptr 1, Ptr 1, Ptr 1, RootSentinel, RootSentinel, False, True)"
  unfolding root_without_unlink_def dGC_init_blank
  by (simp add: dGC_create_def sizeof_dy_object_def dAlloc_alloc_def heap_empty_def
      test_allocator_def test_fn_def dGC_track_def dGC_root_def dObj_link_def access_eqs ring_def)

text \<open>
  Claim C5 as stated fails for the sizes below \<open>sizeof(struct dy_object)\<close>: the test
  allocator answers the request for 8 bytes with the block 1, and \<open>dGC_create\<close> stores the
  24 bytes of a header into that block. The call has no defined result, so it does not return
  a tagged object linked into the generation set.
\<close>

theorem dGC_create_small_block:
  "dAlloc_alloc (allocator (gc_struct (heap_empty 1))) 8 = (1, test_allocator 0\<lparr>user_data := (1, 0, [1])\<rparr>) \<and>
   dGC_create (heap_empty 1) 8 7 = None"
  by (simp add: dGC_create_def sizeof_dy_object_def dAlloc_alloc_def heap_empty_def
      test_allocator_def test_fn_def)


section \<open>Construction of the global state: lemmas\<close>

lemma null_fill_null: "0 < n \<Longrightarrow> null_fill m 0 n 0 = None"
  by (subst null_fill.simps) simp

lemma dysl_new_first_alloc_fails:
  "dAlloc_alloc a sizeof_dysl = (0, a1) \<Longrightarrow> dysl_new a r = Some (0, r, a1)"
  by (simp add: dysl_new_def)

lemma dysl_new_second_alloc_fails:
  "dAlloc_alloc a sizeof_dysl = (D, a1) \<Longrightarrow> D \<noteq> 0 \<Longrightarrow>
   dAlloc_alloc a1 sizeof_dy_global = (0, a2) \<Longrightarrow>
   \<exists>r'. dysl_new a r = Some (0, r', snd (dAlloc_free a2 D))"
  by (simp add: dysl_new_def)

lemma dysl_new_third_alloc_fails:
  "dAlloc_alloc a sizeof_dysl = (D, a1) \<Longrightarrow> D \<noteq> 0 \<Longrightarrow>
   dAlloc_alloc a1 sizeof_dy_global = (g, a2) \<Longrightarrow> g \<noteq> 0 \<Longrightarrow>
   dAlloc_alloc a2 (sizeof_ptr * DYSL_SYMBOLS_INITIAL_CAPACITY) = (0, a3) \<Longrightarrow>
   dysl_new a r = None"
  by (simp add: dysl_new_def dGlobal_init_def dSymbols_init_def null_fill_null
      DYSL_SYMBOLS_INITIAL_CAPACITY_def dGC_init_def dObj_close_def access_eqs)

text \<open>
  Claim C3 at the failing input: an allocator that grants the two structures and refuses the
  bucket array. \<open>dSymbols_init\<close> does not test the pointer and writes \<open>buckets[0]\<close> through
  \<open>NULL\<close>, so \<open>dysl_new\<close> has no defined result, where the claim asks for \<open>NULL\<close> with both
  blocks released.
\<close>

theorem dysl_new_bucket_alloc_failure: "dysl_new (test_allocator 2) (blank_runtime (test_allocator 2)) = None"
  by (simp add: dysl_new_def dGlobal_init_def dSymbols_init_def dAlloc_alloc_def
      test_allocator_def test_fn_def sizeof_dysl_def sizeof_dy_global_def sizeof_ptr_def
      DYSL_SYMBOLS_INITIAL_CAPACITY_def null_fill_null dGC_init_def dObj_close_def access_eqs)

lemma dysl_new_second_alloc_fails_released:
  "\<exists>r'. dysl_new (test_allocator 1) r = Some (0, r', (test_allocator 1)\<lparr>user_data := (1, 0, [])\<rparr>)"
  by (simp add: dysl_new_def dAlloc_alloc_def dAlloc_free_def test_allocator_def test_fn_def
      sizeof_dysl_def sizeof_dy_global_def)


section \<open>Symbol table: lemmas\<close>

lemma fnv1a_loop_total: "len \<le> length dat \<Longrightarrow> \<exists>r. fnv1a_loop dat len i h = Some r"
proof (induction dat len i h rule: fnv1a_loop.induct)
  case (1 dat len i h)
  show ?case
  proof (cases "i < len")
    case True
    then have "i < length dat" using 1(2) by simp
    then show ?thesis using True 1 by (subst fnv1a_loop.simps) simp
  next
    case False
    then show ?thesis by (subst fnv1a_loop.simps) simp
  qed
qed

lemma dHash_fnv1a_total: "dHash_fnv1a nm (length nm) = Some (hash_bytes nm)"
  using fnv1a_loop_total [of "length nm" nm 0 2166136261]
  by (auto simp: dHash_fnv1a_def hash_bytes_def)

lemma slice_loop_eq:
  "length pa = n \<Longrightarrow> length pb = n \<Longrightarrow> i \<le> n \<Longrightarrow>
   slice_loop pa pb n i = Some (drop i pa = drop i pb)"
proof (induction pa pb n i rule: slice_loop.induct)
  case (1 pa pb n i)
  show ?case
  proof (cases "i < n")
    case True
    then have d: "drop i pa = pa ! i # drop (Suc i) pa" "drop i pb = pb ! i # drop (Suc i) pb"
      using 1 by (simp_all add: Cons_nth_drop_Suc)
    show ?thesis
    proof (cases "pa ! i = pb ! i")
      case same: True
      have "slice_loop pa pb n i = slice_loop pa pb n (Suc i)"
        using True 1 same by (subst slice_loop.simps) simp
      also have "\<dots> = Some (drop (Suc i) pa = drop (Suc i) pb)"
        using 1 True same by simp
      finally show ?thesis using d same by simp
    next
      case False
      then show ?thesis using True 1 d by (subst slice_loop.simps) simp
    qed
  next
    case False
    then show ?thesis using 1 by (subst slice_loop.simps) simp
  qed
qed

lemma dSlice_equals_eq:
  "length a = n \<Longrightarrow> length b = n \<Longrightarrow> dSlice_equals a n b n = Some (a = b)"
  using slice_loop_eq [of a n b 0] by (simp add: dSlice_equals_def)

lemma lookup_loop_walk:
  assumes "read_slot m sl = Some p" "chain m p xs"
    and "\<forall>s\<in>set xs. length_sym (syms m s) = length (name (syms m s))"
  shows "lookup_loop m sl nm (length nm) h = Some (walk_slot (key_of m nm h) sl xs)"
  using assms
proof (induction xs arbitrary: sl p)
  case Nil
  then show ?case by (subst lookup_loop.simps) simp
next
  case (Cons x xs)
  from Cons.prems have p: "p = x" "x \<noteq> 0" and ch: "chain m (next_in_table (syms m x)) xs"
    and len: "length_sym (syms m x) = length (name (syms m x))"
    by simp_all
  have rd: "read_slot m (NextSlot x) = Some (next_in_table (syms m x))" using p by simp
  have ih: "lookup_loop m (NextSlot x) nm (length nm) h = Some (walk_slot (key_of m nm h) (NextSlot x) xs)"
    using Cons.IH [OF rd ch] Cons.prems(3) by simp
  show ?case
  proof (cases "hash (syms m x) = h \<and> length_sym (syms m x) = length nm")
    case True
    then have "dSlice_equals (name (syms m x)) (length_sym (syms m x)) nm (length nm)
        = Some (name (syms m x) = nm)"
      using len dSlice_equals_eq [of "name (syms m x)" "length nm" nm] by simp
    then show ?thesis
      using Cons.prems(1) p True ih by (subst lookup_loop.simps) (auto simp: key_of_def)
  next
    case False
    then have "\<not> key_of m nm h x" using len by (auto simp: key_of_def)
    then show ?thesis
      using Cons.prems(1) p False ih by (subst lookup_loop.simps) auto
  qed
qed

lemma same_data_refl: "same_data m m"
  by (simp add: same_data_def)

lemma same_data_trans: "same_data m'' m' \<Longrightarrow> same_data m' m \<Longrightarrow> same_data m'' m"
  by (simp add: same_data_def)

lemma chain_frame:
  "\<forall>s\<in>set xs. next_in_table (syms m' s) = next_in_table (syms m s) \<Longrightarrow>
   chain m' p xs = chain m p xs"
  by (induction xs arbitrary: p) auto

lemma chain_not_null: "chain m p xs \<Longrightarrow> 0 \<notin> set xs"
  by (induction xs arbitrary: p) auto

lemma chain_unique: "chain m p xs \<Longrightarrow> chain m p ys \<Longrightarrow> xs = ys"
proof (induction xs arbitrary: p ys)
  case Nil
  then show ?case by (cases ys) auto
next
  case (Cons x xs)
  then show ?case by (cases ys) auto
qed

lemma push_all_Nil: "push_all ix [] cs = cs"
  by (simp add: push_all_def)

lemma push_all_Cons: "push_all ix (x # xs) cs = push_all ix xs (cs[ix x := x # cs ! ix x])"
  by (simp add: push_all_def)

lemma push_all_append: "push_all ix (xs @ ys) cs = push_all ix ys (push_all ix xs cs)"
  by (simp add: push_all_def)

lemma length_push_all: "length (push_all ix xs cs) = length cs"
  by (induction xs arbitrary: cs) (simp_all add: push_all_Nil push_all_Cons)

lemma set_concat_push:
  "j < length cs \<Longrightarrow> set (concat (cs[j := x # cs ! j])) = insert x (set (concat cs))"
proof (induction cs arbitrary: j)
  case Nil
  then show ?case by simp
next
  case (Cons c cs)
  then show ?case by (cases j) auto
qed

lemma distinct_concat_push:
  "j < length cs \<Longrightarrow> distinct (concat cs) \<Longrightarrow> x \<notin> set (concat cs) \<Longrightarrow>
   distinct (concat (cs[j := x # cs ! j]))"
proof (induction cs arbitrary: j)
  case Nil
  then show ?case by simp
next
  case (Cons c cs)
  show ?case
  proof (cases j)
    case 0
    then show ?thesis using Cons.prems by auto
  next
    case (Suc k)
    then have k: "k < length cs" using Cons.prems by simp
    have "set (concat (cs[k := x # cs ! k])) = insert x (set (concat cs))"
      using k by (rule set_concat_push)
    moreover have "distinct (concat (cs[k := x # cs ! k]))"
      using Cons.IH [OF k] Cons.prems by simp
    ultimately show ?thesis using Suc Cons.prems by (auto simp del: set_concat)
  qed
qed

lemma set_concat_push_all:
  "\<forall>s\<in>set xs. ix s < length cs \<Longrightarrow>
   set (concat (push_all ix xs cs)) = set xs \<union> set (concat cs)"
proof (induction xs arbitrary: cs)
  case Nil
  then show ?case by (simp add: push_all_Nil)
next
  case (Cons x xs)
  have "set (concat (push_all ix xs (cs[ix x := x # cs ! ix x])))
      = set xs \<union> set (concat (cs[ix x := x # cs ! ix x]))"
    using Cons.prems by (intro Cons.IH) simp
  then show ?case using Cons.prems set_concat_push [of "ix x" cs x]
    by (simp add: push_all_Cons del: set_concat)
qed

lemma distinct_concat_push_all:
  "\<forall>s\<in>set xs. ix s < length cs \<Longrightarrow> distinct (xs @ concat cs) \<Longrightarrow>
   distinct (concat (push_all ix xs cs))"
proof (induction xs arbitrary: cs)
  case Nil
  then show ?case by (simp add: push_all_Nil)
next
  case (Cons x xs)
  let ?cs = "cs[ix x := x # cs ! ix x]"
  have j: "ix x < length cs" using Cons.prems by simp
  have "distinct (concat ?cs)" using j Cons.prems(2) by (intro distinct_concat_push) auto
  moreover have "set (concat ?cs) = insert x (set (concat cs))" using j by (rule set_concat_push)
  ultimately have "distinct (xs @ concat ?cs)" using Cons.prems(2) by (auto simp del: set_concat)
  moreover have "\<forall>s\<in>set xs. ix s < length ?cs" using Cons.prems(1) by simp
  ultimately show ?case using Cons.IH [of ?cs] by (simp add: push_all_Cons)
qed

lemma set_push_all_nth:
  "\<forall>s\<in>set xs. ix s < length cs \<Longrightarrow> j < length cs \<Longrightarrow>
   set (push_all ix xs cs ! j) = {s \<in> set xs. ix s = j} \<union> set (cs ! j)"
proof (induction xs arbitrary: cs)
  case Nil
  then show ?case by (simp add: push_all_Nil)
next
  case (Cons x xs)
  let ?cs = "cs[ix x := x # cs ! ix x]"
  have "set (push_all ix xs ?cs ! j) = {s \<in> set xs. ix s = j} \<union> set (?cs ! j)"
    using Cons.prems by (intro Cons.IH) simp_all
  then show ?case using Cons.prems by (auto simp: push_all_Cons nth_list_update)
qed

lemma null_fill_ok:
  "b \<noteq> 0 \<Longrightarrow>
   \<exists>m'. null_fill m b n i = Some m' \<and> syms m' = syms m \<and>
     (\<forall>b'. b' \<noteq> b \<longrightarrow> arrays m' b' = arrays m b') \<and>
     (\<forall>j. i \<le> j \<and> j < n \<longrightarrow> arrays m' b j = 0) \<and>
     (\<forall>j. j < i \<longrightarrow> arrays m' b j = arrays m b j)"
proof (induction "n - i" arbitrary: i m)
  case 0
  then show ?case by (subst null_fill.simps) simp
next
  case (Suc k)
  then have lt: "i < n" by simp
  let ?m1 = "m\<lparr>arrays := (arrays m)(b := (arrays m b)(i := 0))\<rparr>"
  have k: "k = n - Suc i" using Suc.hyps(2) by simp
  from Suc.hyps(1) [OF k Suc.prems, of ?m1] obtain m' where
    m': "null_fill ?m1 b n (Suc i) = Some m'" "syms m' = syms ?m1"
      "\<forall>b'. b' \<noteq> b \<longrightarrow> arrays m' b' = arrays ?m1 b'"
      "\<forall>j. Suc i \<le> j \<and> j < n \<longrightarrow> arrays m' b j = 0"
      "\<forall>j. j < Suc i \<longrightarrow> arrays m' b j = arrays ?m1 b j"
    by blast
  have "null_fill m b n i = Some m'"
    using lt Suc.prems m'(1) by (subst null_fill.simps) simp
  moreover have "\<forall>j. i \<le> j \<and> j < n \<longrightarrow> arrays m' b j = 0"
  proof (intro allI impI)
    fix j assume "i \<le> j \<and> j < n"
    then show "arrays m' b j = 0" using m'(4,5) by (cases "j = i") auto
  qed
  ultimately show ?case using m' by auto
qed

lemma rehash_chain_ok:
  assumes "chain m p xs" "0 < nc" "length ncs = nc"
    and "\<forall>j<nc. chain m (arrays m nb j) (ncs ! j)"
    and "distinct (xs @ concat ncs)"
  shows "\<exists>m'. rehash_chain m nb nc p = Some m' \<and>
     (\<forall>j<nc. chain m' (arrays m' nb j)
        (push_all (\<lambda>s. unat (hash (syms m s)) mod nc) xs ncs ! j)) \<and>
     same_data m' m \<and>
     (\<forall>s. s \<notin> set xs \<longrightarrow> syms m' s = syms m s) \<and>
     (\<forall>b. b \<noteq> nb \<longrightarrow> arrays m' b = arrays m b)"
  using assms
proof (induction xs arbitrary: m p ncs)
  case Nil
  then show ?case
    by (subst rehash_chain.simps) (simp add: push_all_Nil same_data_refl)
next
  case (Cons x xs)
  let ?ix = "\<lambda>s. unat (hash (syms m s)) mod nc"
  let ?j = "?ix x"
  let ?m1 = "m\<lparr>syms := (syms m)(x := (syms m x)\<lparr>next_in_table := arrays m nb ?j\<rparr>)\<rparr>"
  let ?m2 = "?m1\<lparr>arrays := (arrays ?m1)(nb := (arrays ?m1 nb)(?j := x))\<rparr>"
  let ?ncs = "ncs[?j := x # ncs ! ?j]"
  from Cons.prems have p: "p = x" "x \<noteq> 0" and ch: "chain m (next_in_table (syms m x)) xs"
    by simp_all
  have j: "?j < nc" using Cons.prems(2) by simp
  have xn: "x \<notin> set xs" "x \<notin> set (concat ncs)" using Cons.prems(5) by auto
  have step: "rehash_chain m nb nc p = rehash_chain ?m2 nb nc (next_in_table (syms m x))"
    using p Cons.prems(2) by (subst rehash_chain.simps) (simp add: Let_def)
  have nxt: "\<And>s. s \<noteq> x \<Longrightarrow> next_in_table (syms ?m2 s) = next_in_table (syms m s)" by simp
  have ch2: "chain ?m2 (next_in_table (syms m x)) xs"
    using ch xn(1) by (subst chain_frame [of xs ?m2 m]) auto
  have len2: "length ?ncs = nc" using Cons.prems(3) by simp
  have new2: "\<forall>k<nc. chain ?m2 (arrays ?m2 nb k) (?ncs ! k)"
  proof (intro allI impI)
    fix k assume k: "k < nc"
    have "ncs ! k \<in> set ncs" using k Cons.prems(3) by simp
    then have mem: "set (ncs ! k) \<subseteq> set (concat ncs)" by auto
    have old: "chain ?m2 (arrays m nb k) (ncs ! k)"
      using Cons.prems(4) k xn(2) mem by (subst chain_frame [of "ncs ! k" ?m2 m]) auto
    show "chain ?m2 (arrays ?m2 nb k) (?ncs ! k)"
    proof (cases "k = ?j")
      case True
      then show ?thesis using old p(2) Cons.prems(3) j by simp
    next
      case False
      then show ?thesis using old Cons.prems(3) by simp
    qed
  qed
  have "set (concat ?ncs) = insert x (set (concat ncs))"
    using j Cons.prems(3) by (intro set_concat_push) simp
  moreover have "distinct (concat ?ncs)"
    using j Cons.prems(3,5) xn by (intro distinct_concat_push) auto
  ultimately have dist2: "distinct (xs @ concat ?ncs)"
    using Cons.prems(5) by (auto simp del: set_concat)
  from Cons.IH [OF ch2 Cons.prems(2) len2 new2 dist2] obtain m' where
    m': "rehash_chain ?m2 nb nc (next_in_table (syms m x)) = Some m'"
      "\<forall>j<nc. chain m' (arrays m' nb j)
        (push_all (\<lambda>s. unat (hash (syms ?m2 s)) mod nc) xs ?ncs ! j)"
      "same_data m' ?m2"
      "\<forall>s. s \<notin> set xs \<longrightarrow> syms m' s = syms ?m2 s"
      "\<forall>b. b \<noteq> nb \<longrightarrow> arrays m' b = arrays ?m2 b"
    by blast
  have ixeq: "(\<lambda>s. unat (hash (syms ?m2 s)) mod nc) = ?ix" by (rule ext) simp
  have sd: "same_data ?m2 m" by (simp add: same_data_def)
  have "rehash_chain m nb nc p = Some m'" using step m'(1) by simp
  moreover have "\<forall>j<nc. chain m' (arrays m' nb j) (push_all ?ix (x # xs) ncs ! j)"
    using m'(2) unfolding ixeq by (simp add: push_all_Cons)
  moreover have "same_data m' m" using m'(3) sd by (rule same_data_trans)
  moreover have "\<forall>s. s \<notin> set (x # xs) \<longrightarrow> syms m' s = syms m s" using m'(4) by simp
  moreover have "\<forall>b. b \<noteq> nb \<longrightarrow> arrays m' b = arrays m b" using m'(5) by simp
  ultimately show ?case by blast
qed

lemma rehash_loop_ok:
  assumes "length css = capacity t" "buckets t \<noteq> 0" "buckets t \<noteq> nb" "0 < nc" "length ncs = nc"
    and "\<forall>k. i \<le> k \<and> k < capacity t \<longrightarrow> chain m (arrays m (buckets t) k) (css ! k)"
    and "\<forall>j<nc. chain m (arrays m nb j) (ncs ! j)"
    and "distinct (concat (drop i css) @ concat ncs)"
  shows "\<exists>m'. rehash_loop t m nb nc i = Some m' \<and>
     (\<forall>j<nc. chain m' (arrays m' nb j)
        (push_all (\<lambda>s. unat (hash (syms m s)) mod nc) (concat (drop i css)) ncs ! j)) \<and>
     same_data m' m \<and>
     (\<forall>s. s \<notin> set (concat (drop i css)) \<longrightarrow> syms m' s = syms m s) \<and>
     (\<forall>b. b \<noteq> nb \<longrightarrow> arrays m' b = arrays m b)"
  using assms(5-)
proof (induction "capacity t - i" arbitrary: i m ncs)
  case 0
  then have "drop i css = []" using assms(1) by simp
  moreover have "rehash_loop t m nb nc i = Some m" using 0 by (subst rehash_loop.simps) simp
  ultimately show ?case using 0 by (simp add: push_all_Nil same_data_refl)
next
  case (Suc n)
  let ?ix = "\<lambda>s. unat (hash (syms m s)) mod nc"
  let ?xs = "css ! i"
  have lt: "i < capacity t" using Suc.hyps(2) by simp
  have dr: "drop i css = ?xs # drop (Suc i) css"
    using lt assms(1) by (simp add: Cons_nth_drop_Suc)
  have chi: "chain m (arrays m (buckets t) i) ?xs" using Suc.prems(2) lt by simp
  have d1: "distinct (?xs @ concat ncs)" using Suc.prems(4) unfolding dr by auto
  from rehash_chain_ok [OF chi assms(4) Suc.prems(1) Suc.prems(3) d1] obtain m1 where
    m1: "rehash_chain m nb nc (arrays m (buckets t) i) = Some m1"
      "\<forall>j<nc. chain m1 (arrays m1 nb j) (push_all ?ix ?xs ncs ! j)"
      "same_data m1 m"
      "\<forall>s. s \<notin> set ?xs \<longrightarrow> syms m1 s = syms m s"
      "\<forall>b. b \<noteq> nb \<longrightarrow> arrays m1 b = arrays m b"
    by blast
  let ?ncs = "push_all ?ix ?xs ncs"
  have n: "n = capacity t - Suc i" using Suc.hyps(2) by simp
  have len1: "length ?ncs = nc" using Suc.prems(1) by (simp add: length_push_all)
  have rest: "\<forall>k. Suc i \<le> k \<and> k < capacity t \<longrightarrow> chain m1 (arrays m1 (buckets t) k) (css ! k)"
  proof (intro allI impI)
    fix k assume k: "Suc i \<le> k \<and> k < capacity t"
    then have "css ! k \<in> set (drop (Suc i) css)"
      using assms(1) by (auto simp: in_set_conv_nth intro!: exI [of _ "k - Suc i"])
    then have "set (css ! k) \<inter> set ?xs = {}"
      using Suc.prems(4) unfolding dr by auto
    then have "chain m1 (arrays m (buckets t) k) (css ! k) = chain m (arrays m (buckets t) k) (css ! k)"
      using m1(4) by (intro chain_frame) auto
    then show "chain m1 (arrays m1 (buckets t) k) (css ! k)"
      using Suc.prems(2) k m1(5) assms(3) by simp
  qed
  have ix_lt: "\<forall>s\<in>set ?xs. ?ix s < length ncs" using assms(4) Suc.prems(1) by simp
  have "set (concat ?ncs) = set ?xs \<union> set (concat ncs)"
    using ix_lt by (rule set_concat_push_all)
  moreover have "distinct (concat ?ncs)"
    using ix_lt d1 by (rule distinct_concat_push_all)
  ultimately have d2: "distinct (concat (drop (Suc i) css) @ concat ?ncs)"
    using Suc.prems(4) unfolding dr by (auto simp del: set_concat)
  from Suc.hyps(1) [OF n len1 rest m1(2) d2] obtain m' where
    m': "rehash_loop t m1 nb nc (Suc i) = Some m'"
      "\<forall>j<nc. chain m' (arrays m' nb j)
        (push_all (\<lambda>s. unat (hash (syms m1 s)) mod nc) (concat (drop (Suc i) css)) ?ncs ! j)"
      "same_data m' m1"
      "\<forall>s. s \<notin> set (concat (drop (Suc i) css)) \<longrightarrow> syms m' s = syms m1 s"
      "\<forall>b. b \<noteq> nb \<longrightarrow> arrays m' b = arrays m1 b"
    by blast
  have ixeq: "(\<lambda>s. unat (hash (syms m1 s)) mod nc) = ?ix"
    using m1(3) by (intro ext) (simp add: same_data_def)
  have "rehash_loop t m nb nc i = Some m'"
    using lt assms(2) m1(1) m'(1) by (subst rehash_loop.simps) simp
  moreover have "\<forall>j<nc. chain m' (arrays m' nb j) (push_all ?ix (concat (drop i css)) ncs ! j)"
    using m'(2) unfolding ixeq dr by (simp add: push_all_append)
  moreover have "same_data m' m" using m'(3) m1(3) by (rule same_data_trans)
  moreover have "\<forall>s. s \<notin> set (concat (drop i css)) \<longrightarrow> syms m' s = syms m s"
    using m'(4) m1(4) unfolding dr by (auto simp del: set_concat)
  moreover have "\<forall>b. b \<noteq> nb \<longrightarrow> arrays m' b = arrays m b" using m'(5) m1(5) by simp
  ultimately show ?case by blast
qed

lemma walk_slot_snd: "snd (walk_slot P sl xs) = (\<exists>s\<in>set xs. P s)"
  by (induction xs arbitrary: sl) auto

lemma walk_slot_True:
  "read_slot m sl = Some p \<Longrightarrow> chain m p xs \<Longrightarrow> walk_slot P sl xs = (sl', True) \<Longrightarrow>
   \<exists>s\<in>set xs. P s \<and> read_slot m sl' = Some s"
proof (induction xs arbitrary: sl p)
  case Nil
  then show ?case by simp
next
  case (Cons x xs)
  show ?case
  proof (cases "P x")
    case True
    then show ?thesis using Cons.prems by auto
  next
    case False
    have "read_slot m (NextSlot x) = Some (next_in_table (syms m x))" using Cons.prems(2) by simp
    from Cons.IH [OF this] Cons.prems False show ?thesis by auto
  qed
qed

lemma walk_slot_False:
  "read_slot m sl = Some p \<Longrightarrow> chain m p xs \<Longrightarrow> walk_slot P sl xs = (sl', False) \<Longrightarrow>
   (\<forall>s\<in>set xs. \<not> P s) \<and> read_slot m sl' = Some 0 \<and>
   sl' = (if xs = [] then sl else NextSlot (last xs))"
proof (induction xs arbitrary: sl p)
  case Nil
  then show ?case by simp
next
  case (Cons x xs)
  show ?case
  proof (cases "P x")
    case True
    then show ?thesis using Cons.prems by auto
  next
    case False
    have rd: "read_slot m (NextSlot x) = Some (next_in_table (syms m x))" using Cons.prems(2) by simp
    have ch: "chain m (next_in_table (syms m x)) xs" using Cons.prems(2) by simp
    have w: "walk_slot P (NextSlot x) xs = (sl', False)" using Cons.prems(3) False by simp
    from Cons.IH [OF rd ch w] have ih: "\<forall>s\<in>set xs. \<not> P s" "read_slot m sl' = Some 0"
      "sl' = (if xs = [] then NextSlot x else NextSlot (last xs))" by blast+
    show ?thesis
    proof (cases "xs = []")
      case True
      then show ?thesis using ih False by simp
    next
      case nonempty: False
      then show ?thesis using ih False by simp
    qed
  qed
qed


lemma in_concat_nth: "s \<in> set (concat css) \<longleftrightarrow> (\<exists>j<length css. s \<in> set (css ! j))"
  unfolding set_concat by (metis UN_iff in_set_conv_nth)

lemma key_of_same_data: "same_data m' m \<Longrightarrow> key_of m' nm h = key_of m nm h"
  by (intro ext) (simp add: key_of_def same_data_def)

lemma table_ok_chain_mem:
  "table_ok t m css \<Longrightarrow> i < capacity t \<Longrightarrow> s \<in> set (css ! i) \<Longrightarrow> s \<in> set (concat css)"
  by (auto simp: table_ok_def)

lemma dSymbols_lookup_walk:
  assumes "table_ok t m css"
  shows "dSymbols_lookup t m nm (length nm) h =
     Some (walk_slot (key_of m nm h) (BucketSlot (buckets t) (unat h mod capacity t))
        (css ! (unat h mod capacity t)))"
proof -
  let ?i = "unat h mod capacity t"
  have i: "?i < capacity t" using assms by (simp add: table_ok_def)
  have rd: "read_slot m (BucketSlot (buckets t) ?i) = Some (arrays m (buckets t) ?i)"
    using assms by (simp add: table_ok_def)
  have ch: "chain m (arrays m (buckets t) ?i) (css ! ?i)" using assms i by (simp add: table_ok_def)
  have "\<forall>s\<in>set (css ! ?i). length_sym (syms m s) = length (name (syms m s))"
    using assms i table_ok_chain_mem [OF assms i] by (auto simp: table_ok_def simp del: set_concat)
  from lookup_loop_walk [OF rd ch this] show ?thesis
    using assms by (simp add: dSymbols_lookup_def table_ok_def)
qed

lemma table_ok_name_inj:
  "table_ok t m css \<Longrightarrow> s \<in> set (concat css) \<Longrightarrow> s' \<in> set (concat css) \<Longrightarrow>
   name (syms m s) = name (syms m s') \<Longrightarrow> s = s'"
  unfolding table_ok_def by (meson distinct_map inj_onD)

lemma dSymbols_lookup_found:
  assumes ok: "table_ok t m css" and s: "s \<in> set (concat css)"
    and k: "name (syms m s) = nm" "hash (syms m s) = h"
  shows "\<exists>sl. dSymbols_lookup t m nm (length nm) h = Some (sl, True) \<and> read_slot m sl = Some s"
proof -
  let ?i = "unat h mod capacity t"
  let ?sl = "BucketSlot (buckets t) ?i"
  let ?P = "key_of m nm h"
  have i: "?i < capacity t" using ok by (simp add: table_ok_def)
  from s obtain j where j: "j < capacity t" "s \<in> set (css ! j)"
    using ok unfolding in_concat_nth by (auto simp: table_ok_def)
  then have "j = ?i" using ok k by (auto simp: table_ok_def)
  then have sin: "s \<in> set (css ! ?i)" using j by simp
  have Ps: "?P s" using k by (simp add: key_of_def)
  have rd: "read_slot m ?sl = Some (arrays m (buckets t) ?i)" using ok by (simp add: table_ok_def)
  have ch: "chain m (arrays m (buckets t) ?i) (css ! ?i)" using ok i by (simp add: table_ok_def)
  obtain sl f where w: "walk_slot ?P ?sl (css ! ?i) = (sl, f)" by (cases "walk_slot ?P ?sl (css ! ?i)")
  have "f" using walk_slot_snd [of ?P ?sl "css ! ?i"] w sin Ps by auto
  with w have w': "walk_slot ?P ?sl (css ! ?i) = (sl, True)" by simp
  from walk_slot_True [OF rd ch w'] obtain s' where
    s': "s' \<in> set (css ! ?i)" "?P s'" "read_slot m sl = Some s'" by blast
  have "s' \<in> set (concat css)" using table_ok_chain_mem [OF ok i s'(1)] .
  then have "s' = s" using table_ok_name_inj [OF ok _ s] s'(2) k by (simp add: key_of_def)
  then show ?thesis using dSymbols_lookup_walk [OF ok, of nm h] w' s'(3) by simp
qed

lemma dSymbols_lookup_True:
  assumes ok: "table_ok t m css"
    and l: "dSymbols_lookup t m nm (length nm) h = Some (sl, True)"
  shows "\<exists>s\<in>set (concat css). read_slot m sl = Some s \<and> name (syms m s) = nm \<and> hash (syms m s) = h"
proof -
  let ?i = "unat h mod capacity t"
  let ?sl = "BucketSlot (buckets t) ?i"
  have i: "?i < capacity t" using ok by (simp add: table_ok_def)
  have rd: "read_slot m ?sl = Some (arrays m (buckets t) ?i)" using ok by (simp add: table_ok_def)
  have ch: "chain m (arrays m (buckets t) ?i) (css ! ?i)" using ok i by (simp add: table_ok_def)
  have w: "walk_slot (key_of m nm h) ?sl (css ! ?i) = (sl, True)"
    using dSymbols_lookup_walk [OF ok, of nm h] l by simp
  from walk_slot_True [OF rd ch w] obtain s where
    s: "s \<in> set (css ! ?i)" "key_of m nm h s" "read_slot m sl = Some s" by blast
  then show ?thesis using table_ok_chain_mem [OF ok i s(1)] by (auto simp: key_of_def simp del: set_concat)
qed

lemma dSymbols_lookup_False:
  assumes ok: "table_ok t m css"
    and l: "dSymbols_lookup t m nm (length nm) h = Some (sl, False)"
  shows "(\<forall>s\<in>set (css ! (unat h mod capacity t)). \<not> key_of m nm h s) \<and> read_slot m sl = Some 0 \<and>
     sl = (if css ! (unat h mod capacity t) = [] then BucketSlot (buckets t) (unat h mod capacity t)
           else NextSlot (last (css ! (unat h mod capacity t))))"
proof -
  let ?i = "unat h mod capacity t"
  let ?sl = "BucketSlot (buckets t) ?i"
  have i: "?i < capacity t" using ok by (simp add: table_ok_def)
  have rd: "read_slot m ?sl = Some (arrays m (buckets t) ?i)" using ok by (simp add: table_ok_def)
  have ch: "chain m (arrays m (buckets t) ?i) (css ! ?i)" using ok i by (simp add: table_ok_def)
  have w: "walk_slot (key_of m nm h) ?sl (css ! ?i) = (sl, False)"
    using dSymbols_lookup_walk [OF ok, of nm h] l by simp
  from walk_slot_False [OF rd ch w] show ?thesis .
qed

lemma dSymbols_lookup_total:
  "table_ok t m css \<Longrightarrow> \<exists>sl f. dSymbols_lookup t m nm (length nm) h = Some (sl, f)"
  using dSymbols_lookup_walk [of t m css nm h]
  by (cases "walk_slot (key_of m nm h) (BucketSlot (buckets t) (unat h mod capacity t))
        (css ! (unat h mod capacity t))") auto

lemma dSymbols_resize_ok:
  assumes ok: "table_ok t m css" and al: "dAlloc_alloc a (sizeof_ptr * nc) = (nb, a1)"
    and nb: "nb \<noteq> 0" "nb \<noteq> buckets t" and nc: "0 < nc"
  shows "\<exists>m' css'. dSymbols_resize t m a nc =
        Some (t\<lparr>buckets := nb, capacity := nc\<rparr>, m', snd (dAlloc_free a1 (buckets t))) \<and>
     table_ok (t\<lparr>buckets := nb, capacity := nc\<rparr>) m' css' \<and>
     set (concat css') = set (concat css) \<and> length (concat css') = length (concat css) \<and>
     same_data m' m \<and>
     (\<forall>s. s \<notin> set (concat css) \<longrightarrow> syms m' s = syms m s)"
proof -
  let ?b = "buckets t"
  from null_fill_ok [OF nb(1), of m nc 0] obtain m1 where
    m1: "null_fill m nb nc 0 = Some m1" "syms m1 = syms m"
      "\<forall>b'. b' \<noteq> nb \<longrightarrow> arrays m1 b' = arrays m b'"
      "\<forall>j. 0 \<le> j \<and> j < nc \<longrightarrow> arrays m1 nb j = 0"
    by blast
  let ?ncs = "replicate nc ([]::addr list)"
  let ?ix = "\<lambda>s. unat (hash (syms m1 s)) mod nc"
  have len: "length css = capacity t" and b0: "?b \<noteq> 0" using ok by (simp_all add: table_ok_def)
  have old: "\<forall>k. 0 \<le> k \<and> k < capacity t \<longrightarrow> chain m1 (arrays m1 ?b k) (css ! k)"
  proof (intro allI impI)
    fix k assume k: "0 \<le> k \<and> k < capacity t"
    have "chain m1 (arrays m ?b k) (css ! k) = chain m (arrays m ?b k) (css ! k)"
      by (intro chain_frame) (simp add: m1(2))
    then show "chain m1 (arrays m1 ?b k) (css ! k)"
      using ok k m1(3) nb(2) by (simp add: table_ok_def)
  qed
  have new: "\<forall>j<nc. chain m1 (arrays m1 nb j) (?ncs ! j)" using m1(4) by simp
  have dist: "distinct (concat (drop 0 css) @ concat ?ncs)" using ok by (simp add: table_ok_def)
  from rehash_loop_ok [OF len b0 nb(2) [symmetric] nc _ old new dist] obtain m2 where
    m2: "rehash_loop t m1 nb nc 0 = Some m2"
      "\<forall>j<nc. chain m2 (arrays m2 nb j) (push_all ?ix (concat (drop 0 css)) ?ncs ! j)"
      "same_data m2 m1"
      "\<forall>s. s \<notin> set (concat (drop 0 css)) \<longrightarrow> syms m2 s = syms m1 s"
    by auto
  let ?css = "push_all ?ix (concat css) ?ncs"
  let ?t = "t\<lparr>buckets := nb, capacity := nc\<rparr>"
  have sd: "same_data m2 m" using m2(3) m1(2) by (simp add: same_data_def)
  have ixlt: "\<forall>s\<in>set (concat css). ?ix s < length ?ncs" using nc by simp
  have setc: "set (concat ?css) = set (concat css)"
    using set_concat_push_all [OF ixlt] by (simp del: set_concat)
  have distc: "distinct (concat ?css)"
    by (rule distinct_concat_push_all [OF ixlt]) (use ok in \<open>simp add: table_ok_def\<close>)
  have lenc: "length (concat ?css) = length (concat css)"
    using setc distc ok by (metis distinct_card table_ok_def)
  have idx: "\<forall>i<nc. \<forall>s\<in>set (?css ! i). unat (hash (syms m2 s)) mod nc = i"
  proof (intro allI impI ballI)
    fix i s assume i: "i < nc" and s: "s \<in> set (?css ! i)"
    have "set (?css ! i) = {s \<in> set (concat css). ?ix s = i} \<union> set (?ncs ! i)"
      using ixlt i by (intro set_push_all_nth) simp_all
    with s i have "?ix s = i" by simp
    then show "unat (hash (syms m2 s)) mod nc = i" using m2(3) by (simp add: same_data_def)
  qed
  have names: "distinct (map (\<lambda>s. name (syms m2 s)) (concat ?css))"
  proof -
    have "inj_on (\<lambda>s. name (syms m s)) (set (concat css))"
      using ok by (simp add: table_ok_def distinct_map)
    moreover have "(\<lambda>s. name (syms m2 s)) = (\<lambda>s. name (syms m s))"
      using sd by (intro ext) (simp add: same_data_def)
    ultimately show ?thesis using distc setc by (simp add: distinct_map del: set_concat)
  qed
  have lens: "\<forall>s\<in>set (concat ?css). length_sym (syms m2 s) = length (name (syms m2 s))"
    using ok sd unfolding setc by (simp add: table_ok_def same_data_def)
  have "table_ok ?t m2 ?css"
    unfolding table_ok_def
    using nb(1) nc m2(2) idx distc lens names by (simp add: length_push_all)
  moreover have "dSymbols_resize t m a nc = Some (?t, m2, snd (dAlloc_free a1 ?b))"
    using al nb(1) m1(1) m2(1) by (simp add: dSymbols_resize_def)
  moreover have "\<forall>s. s \<notin> set (concat css) \<longrightarrow> syms m2 s = syms m s"
    using m2(4) m1(2) by simp
  ultimately show ?thesis using setc lenc sd by blast
qed

text \<open>
  Claim C6. When the allocation of the new bucket array returns \<open>NULL\<close>, \<open>dSymbols_resize\<close>
  returns with the table and the memory exactly as they were (same bucket array, capacity
  and count, same chains), for every table, memory and new capacity; only the allocator has
  seen the request.
\<close>

theorem dSymbols_resize_alloc_failure:
  assumes "dAlloc_alloc a (sizeof_ptr * new_capacity) = (0, a1)"
  shows "dSymbols_resize t m a new_capacity = Some (t, m, a1)"
  using assms by (simp add: dSymbols_resize_def)

theorem dSymbols_resize_alloc_failure_witness:
  "dAlloc_alloc (test_allocator 0) (sizeof_ptr * 128) = (0, test_allocator 0) \<and>
   dSymbols_resize \<lparr>buckets = 1, count = 0, capacity = 64\<rparr> blank_mem (test_allocator 0) 128 =
     Some (\<lparr>buckets = 1, count = 0, capacity = 64\<rparr>, blank_mem, test_allocator 0)"
proof -
  have a: "dAlloc_alloc (test_allocator 0) (sizeof_ptr * 128) = (0, test_allocator 0)"
    by (simp add: dAlloc_alloc_def test_allocator_def test_fn_def)
  from dSymbols_resize_alloc_failure [OF a] a show ?thesis by simp
qed


lemma dSymbols_resize_membership:
  assumes ok: "table_ok t m css"
    and al: "dAlloc_alloc a (sizeof_ptr * new_capacity) = (nb, a1)"
    and nb: "nb = 0 \<or> (0 < new_capacity \<and> nb \<noteq> buckets t)"
  shows "\<exists>t' m' a' css'. dSymbols_resize t m a new_capacity = Some (t', m', a') \<and>
     table_ok t' m' css' \<and> set (concat css') = set (concat css) \<and> count t' = count t \<and>
     same_data m' m \<and>
     (\<forall>nm h sl s. dSymbols_lookup t m nm (length nm) h = Some (sl, True) \<and> read_slot m sl = Some s \<longrightarrow>
        (\<exists>sl'. dSymbols_lookup t' m' nm (length nm) h = Some (sl', True) \<and>
           read_slot m' sl' = Some s)) \<and>
     (\<forall>nm h sl. dSymbols_lookup t m nm (length nm) h = Some (sl, False) \<longrightarrow>
        (\<exists>sl'. dSymbols_lookup t' m' nm (length nm) h = Some (sl', False)))"
proof (cases "nb = 0")
  case True
  then have "dSymbols_resize t m a new_capacity = Some (t, m, a1)"
    using al by (simp add: dSymbols_resize_def)
  then show ?thesis using ok by (auto simp: same_data_refl)
next
  case False
  then have nb': "nb \<noteq> 0" "nb \<noteq> buckets t" "0 < new_capacity" using nb by auto
  let ?t = "t\<lparr>buckets := nb, capacity := new_capacity\<rparr>"
  from dSymbols_resize_ok [OF ok al nb'] obtain m' css' where
    r: "dSymbols_resize t m a new_capacity = Some (?t, m', snd (dAlloc_free a1 (buckets t)))"
    and ok': "table_ok ?t m' css'"
    and mem: "set (concat css') = set (concat css)"
    and sd: "same_data m' m"
    by blast
  have found: "\<exists>sl'. dSymbols_lookup ?t m' nm (length nm) h = Some (sl', True) \<and>
      read_slot m' sl' = Some s"
    if l: "dSymbols_lookup t m nm (length nm) h = Some (sl, True)" and rd: "read_slot m sl = Some s"
    for nm h sl s
  proof -
    from dSymbols_lookup_True [OF ok l] rd
    have s: "s \<in> set (concat css)" "name (syms m s) = nm" "hash (syms m s) = h" by auto
    then have "s \<in> set (concat css')" "name (syms m' s) = nm" "hash (syms m' s) = h"
      using mem sd by (simp_all add: same_data_def del: set_concat)
    from dSymbols_lookup_found [OF ok' this] show ?thesis .
  qed
  have absent: "\<exists>sl'. dSymbols_lookup ?t m' nm (length nm) h = Some (sl', False)"
    if l: "dSymbols_lookup t m nm (length nm) h = Some (sl, False)" for nm h sl
  proof -
    from dSymbols_lookup_total [OF ok', of nm h] obtain sl' f where
      l': "dSymbols_lookup ?t m' nm (length nm) h = Some (sl', f)" by blast
    have "\<not> f"
    proof
      assume f
      with l' have "dSymbols_lookup ?t m' nm (length nm) h = Some (sl', True)" by simp
      from dSymbols_lookup_True [OF ok' this] obtain s where
        s: "s \<in> set (concat css')" "name (syms m' s) = nm" "hash (syms m' s) = h" by blast
      then have s0: "s \<in> set (concat css)" "name (syms m s) = nm" "hash (syms m s) = h"
        using mem sd by (simp_all add: same_data_def del: set_concat)
      from dSymbols_lookup_found [OF ok s0] l show False by auto
    qed
    with l' show ?thesis by auto
  qed
  have F: "\<forall>nm h sl s. dSymbols_lookup t m nm (length nm) h = Some (sl, True) \<and> read_slot m sl = Some s \<longrightarrow>
        (\<exists>sl'. dSymbols_lookup ?t m' nm (length nm) h = Some (sl', True) \<and>
           read_slot m' sl' = Some s)"
    using found by blast
  have A: "\<forall>nm h sl. dSymbols_lookup t m nm (length nm) h = Some (sl, False) \<longrightarrow>
        (\<exists>sl'. dSymbols_lookup ?t m' nm (length nm) h = Some (sl', False))"
    using absent by blast
  have C: "count ?t = count t" by simp
  from r ok' mem C sd F A show ?thesis by blast
qed

lemma null_fill_sized_eq:
  "sizeof_ptr * n \<le> block_size \<Longrightarrow> null_fill_sized m b block_size n i = null_fill m b n i"
proof (induction "n - i" arbitrary: i m)
  case 0
  then show ?case by (subst null_fill_sized.simps, subst null_fill.simps) simp
next
  case (Suc k)
  then have lt: "i < n" by simp
  then have "sizeof_ptr * Suc i \<le> sizeof_ptr * n" by (intro mult_le_mono2) simp
  then have le: "sizeof_ptr * Suc i \<le> block_size" using Suc.prems by simp
  have k: "k = n - Suc i" using Suc.hyps(2) by simp
  have ih: "null_fill_sized m1 b block_size n (Suc i) = null_fill m1 b n (Suc i)" for m1
    by (rule Suc.hyps(1) [OF k Suc.prems])
  show ?case
    using lt le by (subst null_fill_sized.simps, subst null_fill.simps) (simp add: ih)
qed

lemma null_fill_sized_bound:
  "null_fill_sized m b block_size n i = Some m' \<Longrightarrow> i < n \<Longrightarrow> sizeof_ptr * n \<le> block_size"
proof (induction "n - i" arbitrary: i m)
  case 0
  then show ?case by simp
next
  case (Suc k)
  have k: "k = n - Suc i" using Suc.hyps(2) by simp
  from Suc.prems have le: "sizeof_ptr * Suc i \<le> block_size"
    by (subst (asm) null_fill_sized.simps) (simp split: if_splits)
  show ?case
  proof (cases "Suc i < n")
    case True
    from Suc.prems le obtain m1 where "null_fill_sized m1 b block_size n (Suc i) = Some m'"
      by (subst (asm) null_fill_sized.simps) (auto split: if_splits bind_splits)
    from Suc.hyps(1) [OF k this True] show ?thesis .
  next
    case False
    then have "n = Suc i" using Suc.prems(2) by simp
    then show ?thesis using le by simp
  qed
qed

lemma dSymbols_resize_sized_eq:
  "sizeof_ptr * new_capacity < 2 ^ 64 \<Longrightarrow>
   dSymbols_resize_sized t m a new_capacity = dSymbols_resize t m a new_capacity"
  by (simp add: dSymbols_resize_sized_def dSymbols_resize_def size_t_mul_def null_fill_sized_eq
      split: prod.splits)

text \<open>
  Claim C4, as amended. Let the new array fit \<open>size_t\<close>: \<open>sizeof(struct dy_symbol*) *
  new_capacity\<close> is below \<open>2^64\<close>. In a well-formed table, with an allocator that either
  refuses the new array or returns a block other than the current array (for a positive
  capacity), \<open>dSymbols_resize\<close>, with the request computed in \<open>size_t\<close> and every store to
  the new array checked against the size of the block, returns a well-formed table with the
  same symbols, each once, and the same count; the names, lengths and hashes of the symbols are
  unchanged; every lookup that found a symbol before finds the same symbol afterwards, and
  every lookup that found none finds none.
\<close>

theorem dSymbols_resize_preserves_membership:
  assumes ok: "table_ok t m css"
    and fits: "sizeof_ptr * new_capacity < 2 ^ 64"
    and al: "dAlloc_alloc a (sizeof_ptr * new_capacity) = (nb, a1)"
    and nb: "nb = 0 \<or> (0 < new_capacity \<and> nb \<noteq> buckets t)"
  shows "\<exists>t' m' a' css'. dSymbols_resize_sized t m a new_capacity = Some (t', m', a') \<and>
     table_ok t' m' css' \<and> set (concat css') = set (concat css) \<and> count t' = count t \<and>
     same_data m' m \<and>
     (\<forall>nm h sl s. dSymbols_lookup t m nm (length nm) h = Some (sl, True) \<and> read_slot m sl = Some s \<longrightarrow>
        (\<exists>sl'. dSymbols_lookup t' m' nm (length nm) h = Some (sl', True) \<and>
           read_slot m' sl' = Some s)) \<and>
     (\<forall>nm h sl. dSymbols_lookup t m nm (length nm) h = Some (sl, False) \<longrightarrow>
        (\<exists>sl'. dSymbols_lookup t' m' nm (length nm) h = Some (sl', False)))"
  using dSymbols_resize_membership [OF ok al nb] by (simp only: dSymbols_resize_sized_eq [OF fits])

lemma table_ok_one: "table_ok table_one mem_one [[5]]"
  by (simp add: table_ok_def table_one_def mem_one_def)

theorem dSymbols_resize_preserves_membership_witness:
  "table_ok table_one mem_one [[5]] \<and> sizeof_ptr * 2 < (2::nat) ^ 64 \<and>
   dAlloc_alloc (test_allocator 1) (sizeof_ptr * 2) = (1, test_allocator 0\<lparr>user_data := (1, 0, [1])\<rparr>) \<and>
   (\<exists>sl. dSymbols_lookup table_one mem_one [97] (length [97::8 word]) 3 = Some (sl, True) \<and>
      read_slot mem_one sl = Some 5) \<and>
   (\<exists>t' m' a' css'. dSymbols_resize_sized table_one mem_one (test_allocator 1) 2 = Some (t', m', a') \<and>
      table_ok t' m' css' \<and> set (concat css') = {5} \<and> count t' = 1 \<and>
      (\<exists>sl'. dSymbols_lookup t' m' [97] (length [97::8 word]) 3 = Some (sl', True) \<and>
         read_slot m' sl' = Some 5))"
proof -
  have a: "dAlloc_alloc (test_allocator 1) (sizeof_ptr * 2) = (1, test_allocator 0\<lparr>user_data := (1, 0, [1])\<rparr>)"
    by (simp add: dAlloc_alloc_def test_allocator_def test_fn_def sizeof_ptr_def)
  have b: "(1::addr) = 0 \<or> (0 < (2::nat) \<and> (1::addr) \<noteq> buckets table_one)"
    by (simp add: table_one_def)
  have c: "sizeof_ptr * 2 < (2::nat) ^ 64" by (simp add: sizeof_ptr_def)
  have l: "\<exists>sl. dSymbols_lookup table_one mem_one [97] (length [97::8 word]) 3 = Some (sl, True) \<and>
      read_slot mem_one sl = Some 5"
    by (rule dSymbols_lookup_found [OF table_ok_one]) (simp_all add: mem_one_def)
  from dSymbols_resize_preserves_membership [OF table_ok_one c a b] obtain t' m' a' css' where
    r: "dSymbols_resize_sized table_one mem_one (test_allocator 1) 2 = Some (t', m', a')"
      "table_ok t' m' css'" "set (concat css') = set (concat [[5]])" "count t' = count table_one"
    and f: "\<forall>nm h sl s. dSymbols_lookup table_one mem_one nm (length nm) h = Some (sl, True) \<and>
        read_slot mem_one sl = Some s \<longrightarrow>
        (\<exists>sl'. dSymbols_lookup t' m' nm (length nm) h = Some (sl', True) \<and> read_slot m' sl' = Some s)"
    by blast
  from l f have "\<exists>sl'. dSymbols_lookup t' m' [97] (length [97::8 word]) 3 = Some (sl', True) \<and>
      read_slot m' sl' = Some 5" by blast
  with r table_ok_one a c l show ?thesis by (auto simp: table_one_def)
qed

text \<open>
  Claim C4 as stated fails for a new capacity whose array does not fit \<open>size_t\<close>. The table
  with one bucket and the symbol 5 is well formed, and the lookup of the symbol's name finds
  it. For the new capacity \<open>2^61 + 1\<close> the size of the request wraps to 8 bytes; the test
  allocator answers it with the block 1, which holds one entry, and the fill loop stores
  \<open>NULL\<close> to \<open>new_buckets[1]\<close>, past the end of the block. The call has no defined result,
  so the symbol is not reachable afterwards.
\<close>

theorem dSymbols_resize_sized_wraps:
  "table_ok table_one mem_one [[5]] \<and>
   (\<exists>sl. dSymbols_lookup table_one mem_one [97] (length [97::8 word]) 3 = Some (sl, True) \<and>
      read_slot mem_one sl = Some 5) \<and>
   size_t_mul sizeof_ptr (2 ^ 61 + 1) = 8 \<and>
   dAlloc_alloc (test_allocator 1) 8 = (1, test_allocator 0\<lparr>user_data := (1, 0, [1])\<rparr>) \<and>
   dSymbols_resize_sized table_one mem_one (test_allocator 1) (2 ^ 61 + 1) = None"
proof -
  have l: "\<exists>sl. dSymbols_lookup table_one mem_one [97] (length [97::8 word]) 3 = Some (sl, True) \<and>
      read_slot mem_one sl = Some 5"
    by (rule dSymbols_lookup_found [OF table_ok_one]) (simp_all add: mem_one_def)
  have s: "size_t_mul sizeof_ptr (2 ^ 61 + 1) = 8"
    by (simp add: size_t_mul_def sizeof_ptr_def)
  have a: "dAlloc_alloc (test_allocator 1) 8 = (1, test_allocator 0\<lparr>user_data := (1, 0, [1])\<rparr>)"
    by (simp add: dAlloc_alloc_def test_allocator_def test_fn_def)
  have f: "null_fill_sized mem_one 1 8 (2 ^ 61 + 1) 0 = None"
    by (simp add: null_fill_sized.simps [of _ _ _ _ 0] null_fill_sized.simps [of _ _ _ _ "Suc 0"]
        sizeof_ptr_def)
  have "dSymbols_resize_sized table_one mem_one (test_allocator 1) (2 ^ 61 + 1) = None"
    unfolding dSymbols_resize_sized_def Let_def s a prod.case f by simp
  with table_ok_one l s a show ?thesis by blast
qed

lemma chain_snoc:
  assumes "chain m p xs" "xs \<noteq> []" "distinct xs" "f \<notin> set xs" "f \<noteq> 0"
    and "\<forall>s\<in>set (butlast xs). next_in_table (syms m' s) = next_in_table (syms m s)"
    and "next_in_table (syms m' (last xs)) = f" "next_in_table (syms m' f) = 0"
  shows "chain m' p (xs @ [f])"
  using assms
proof (induction xs arbitrary: p)
  case Nil
  then show ?case by simp
next
  case (Cons x xs)
  show ?case
  proof (cases "xs = []")
    case True
    then show ?thesis using Cons.prems by simp
  next
    case False
    then have "chain m' (next_in_table (syms m x)) (xs @ [f])"
      using Cons.prems by (intro Cons.IH) auto
    then show ?thesis using Cons.prems False by simp
  qed
qed

lemma set_concat_snoc:
  "j < length cs \<Longrightarrow> set (concat (cs[j := cs ! j @ [x]])) = insert x (set (concat cs))"
proof (induction cs arbitrary: j)
  case Nil
  then show ?case by simp
next
  case (Cons c cs)
  then show ?case by (cases j) auto
qed

lemma distinct_concat_snoc:
  "j < length cs \<Longrightarrow> distinct (concat cs) \<Longrightarrow> x \<notin> set (concat cs) \<Longrightarrow>
   distinct (concat (cs[j := cs ! j @ [x]]))"
proof (induction cs arbitrary: j)
  case Nil
  then show ?case by simp
next
  case (Cons c cs)
  show ?case
  proof (cases j)
    case 0
    then show ?thesis using Cons.prems by auto
  next
    case (Suc k)
    then have k: "k < length cs" using Cons.prems by simp
    have "set (concat (cs[k := cs ! k @ [x]])) = insert x (set (concat cs))"
      using k by (rule set_concat_snoc)
    moreover have "distinct (concat (cs[k := cs ! k @ [x]]))"
      using Cons.IH [OF k] Cons.prems by simp
    ultimately show ?thesis using Suc Cons.prems by (auto simp del: set_concat)
  qed
qed

lemma length_concat_snoc:
  "j < length cs \<Longrightarrow> length (concat (cs[j := cs ! j @ [x]])) = Suc (length (concat cs))"
proof (induction cs arbitrary: j)
  case Nil
  then show ?case by simp
next
  case (Cons c cs)
  then show ?case by (cases j) auto
qed

lemma walk_slot_snoc_new:
  "\<forall>s\<in>set xs. \<not> P s \<Longrightarrow> P f \<Longrightarrow>
   walk_slot P sl (xs @ [f]) = (if xs = [] then sl else NextSlot (last xs), True)"
  by (induction xs arbitrary: sl) auto

lemma nth_subset_concat: "i < length css \<Longrightarrow> set (css ! i) \<subseteq> set (concat css)"
proof -
  assume "i < length css"
  then have "css ! i \<in> set css" by simp
  then show ?thesis by auto
qed

lemma distinct_chains:
  "distinct (concat css) \<Longrightarrow> i < length css \<Longrightarrow> k < length css \<Longrightarrow> i \<noteq> k \<Longrightarrow>
   set (css ! i) \<inter> set (css ! k) = {}"
proof (induction css arbitrary: i k)
  case Nil
  then show ?case by simp
next
  case (Cons c css)
  have dc: "set c \<inter> set (concat css) = {}" using Cons.prems(1) by simp
  show ?case
  proof (cases i)
    case 0
    then obtain k' where k: "k = Suc k'" using Cons.prems by (cases k) auto
    then have "set (css ! k') \<subseteq> set (concat css)" using Cons.prems by (intro nth_subset_concat) simp
    then show ?thesis using 0 k dc by auto
  next
    case (Suc i')
    show ?thesis
    proof (cases k)
      case 0
      have "set (css ! i') \<subseteq> set (concat css)" using Suc Cons.prems by (intro nth_subset_concat) simp
      then show ?thesis using Suc 0 dc by auto
    next
      case (Suc k')
      then show ?thesis using \<open>i = Suc i'\<close> Cons.prems Cons.IH [of i' k'] by auto
    qed
  qed
qed

lemma distinct_chain_nth: "distinct (concat css) \<Longrightarrow> i < length css \<Longrightarrow> distinct (css ! i)"
  by (induction css arbitrary: i) (auto simp: nth_Cons split: nat.splits)

lemma alloc_contract_alloc:
  assumes "alloc_contract live a" "dAlloc_alloc a sz = (p, a1)"
  shows "alloc_contract live a1" "p \<noteq> 0 \<Longrightarrow> live (user_data a1) p"
    "live (user_data a) b \<Longrightarrow> p \<noteq> b \<and> live (user_data a1) b"
proof -
  obtain ud' where f: "fn a (user_data a) 0 0 sz = (p, ud')" and a1: "a1 = a\<lparr>user_data := ud'\<rparr>"
    using assms(2) by (auto simp: dAlloc_alloc_def split: prod.splits)
  show "alloc_contract live a1" using assms(1) a1 by (simp add: alloc_contract_def)
  have c: "(p \<noteq> 0 \<longrightarrow> live ud' p) \<and> (\<forall>b. live (user_data a) b \<longrightarrow> p \<noteq> b \<and> live ud' b)"
    using assms(1) f unfolding alloc_contract_def by (metis (mono_tags, lifting) case_prod_conv)
  show "p \<noteq> 0 \<Longrightarrow> live (user_data a1) p" using c a1 by simp
  show "live (user_data a) b \<Longrightarrow> p \<noteq> b \<and> live (user_data a1) b" using c a1 by simp
qed

lemma alloc_contract_free:
  assumes "alloc_contract live a"
  shows "alloc_contract live (snd (dAlloc_free a p))"
    "live (user_data a) b \<Longrightarrow> p \<noteq> b \<Longrightarrow> live (user_data (snd (dAlloc_free a p))) b"
proof -
  show "alloc_contract live (snd (dAlloc_free a p))"
    using assms by (simp add: alloc_contract_def dAlloc_free_def split: prod.splits)
  show "live (user_data a) b \<Longrightarrow> p \<noteq> b \<Longrightarrow> live (user_data (snd (dAlloc_free a p))) b"
    using assms unfolding alloc_contract_def dAlloc_free_def
    by (auto split: prod.splits) (metis snd_conv)
qed

lemma grow_capacity_total:
  "0 < c \<Longrightarrow> \<exists>nc. grow_capacity c d = Some nc \<and> c \<le> nc \<and> \<not> nc * 3 < d * 4"
proof (induction "d * 4 - c * 3" arbitrary: c rule: less_induct)
  case less
  show ?case
  proof (cases "c * 3 < d * 4")
    case True
    have "d * 4 - (c * 2) * 3 < d * 4 - c * 3" using True less.prems by simp
    from less.hyps [OF this] less.prems obtain nc where
      "grow_capacity (c * 2) d = Some nc" "c * 2 \<le> nc" "\<not> nc * 3 < d * 4" by auto
    then show ?thesis using True by (subst grow_capacity.simps) auto
  next
    case False
    then show ?thesis by (subst grow_capacity.simps) auto
  qed
qed

lemma table_ok_count: "table_ok (t\<lparr>count := c\<rparr>) m css = table_ok t m css"
  by (simp add: table_ok_def)

lemma dSymbols_lookup_count: "dSymbols_lookup (t\<lparr>count := c\<rparr>) m nm len h = dSymbols_lookup t m nm len h"
  by (simp add: dSymbols_lookup_def)

lemma place_symbol_ok:
  assumes ok: "table_ok t m css"
    and nf: "dSymbols_lookup t m nm (length nm) h = Some (sl, False)"
    and fresh: "f \<noteq> 0" "f \<notin> set (concat css)"
    and newname: "\<forall>s\<in>set (concat css). name (syms m s) \<noteq> nm"
  shows "\<exists>m'. place_symbol m sl f nm (length nm) h = Some m' \<and>
     table_ok t m' (css[unat h mod capacity t := css ! (unat h mod capacity t) @ [f]]) \<and>
     (\<forall>s. s \<noteq> f \<longrightarrow> name (syms m' s) = name (syms m s) \<and> hash (syms m' s) = hash (syms m s)) \<and>
     name (syms m' f) = nm \<and> hash (syms m' f) = h \<and>
     dSymbols_lookup t m' nm (length nm) h = Some (sl, True) \<and> read_slot m' sl = Some f"
proof -
  let ?i = "unat h mod capacity t"
  let ?xs = "css ! ?i"
  let ?b = "buckets t"
  let ?css = "css[?i := ?xs @ [f]]"
  have i: "?i < capacity t" and len: "length css = capacity t" and b0: "?b \<noteq> 0"
    and dist: "distinct (concat css)"
    using ok by (simp_all add: table_ok_def)
  have chi: "chain m (arrays m ?b ?i) ?xs" using ok i by (simp add: table_ok_def)
  have xs_sub: "set ?xs \<subseteq> set (concat css)" using i len by (intro nth_subset_concat) simp
  have fxs: "f \<notin> set ?xs" using fresh(2) xs_sub by auto
  have dxs: "distinct ?xs" using dist i len by (intro distinct_chain_nth) simp_all
  from dSymbols_lookup_False [OF ok nf]
  have nokey: "\<forall>s\<in>set ?xs. \<not> key_of m nm h s"
    and sl: "sl = (if ?xs = [] then BucketSlot ?b ?i else NextSlot (last ?xs))"
    by simp_all
  let ?m1 = "m\<lparr>syms := (syms m)(f := (syms m f)\<lparr>next_in_table := 0, length_sym := length nm,
      hash := h, name := nm\<rparr>)\<rparr>"
  have l0: "?xs \<noteq> [] \<Longrightarrow> last ?xs \<noteq> 0" using chain_not_null [OF chi] last_in_set by metis
  have lf: "?xs \<noteq> [] \<Longrightarrow> last ?xs \<noteq> f" using fxs last_in_set by metis
  obtain m' where m': "write_slot ?m1 sl f = Some m'"
    using sl b0 l0 by (cases "?xs = []") auto
  have pl: "place_symbol m sl f nm (length nm) h = Some m'"
    using m' fresh(1) by (simp add: place_symbol_def)
  have data: "\<And>s. s \<noteq> f \<Longrightarrow> name (syms m' s) = name (syms m s) \<and> hash (syms m' s) = hash (syms m s)
      \<and> length_sym (syms m' s) = length_sym (syms m s)"
    using m' sl b0 l0 by (cases "?xs = []") auto
  have newf: "name (syms m' f) = nm" "hash (syms m' f) = h" "length_sym (syms m' f) = length nm"
    "next_in_table (syms m' f) = 0"
    using m' sl b0 l0 lf by (cases "?xs = []"; auto)+
  have nxt: "\<And>s. s \<noteq> f \<Longrightarrow> ?xs = [] \<or> s \<noteq> last ?xs \<Longrightarrow>
      next_in_table (syms m' s) = next_in_table (syms m s)"
    using m' sl b0 l0 by (cases "?xs = []") auto
  have nxtl: "?xs \<noteq> [] \<Longrightarrow> next_in_table (syms m' (last ?xs)) = f"
    using m' sl l0 by auto
  have arr: "\<And>k. arrays m' ?b k = (if ?xs = [] \<and> k = ?i then f else arrays m ?b k)"
    using m' sl b0 l0 by (cases "?xs = []") auto
  have rdsl: "read_slot m' sl = Some f"
    using sl b0 l0 arr nxtl by (cases "?xs = []") auto
  have chains: "\<forall>k<capacity t. chain m' (arrays m' ?b k) (?css ! k)"
  proof (intro allI impI)
    fix k assume k: "k < capacity t"
    show "chain m' (arrays m' ?b k) (?css ! k)"
    proof (cases "k = ?i")
      case True
      show ?thesis
      proof (cases "?xs = []")
        case empty: True
        then show ?thesis using True i len arr newf(4) fresh(1) by simp
      next
        case False
        have "\<forall>s\<in>set (butlast ?xs). next_in_table (syms m' s) = next_in_table (syms m s)"
        proof
          fix s assume s: "s \<in> set (butlast ?xs)"
          then have "s \<noteq> last ?xs" using last_notin_butlast [OF dxs False] by auto
          moreover have "s \<noteq> f" using s fxs by (auto dest: in_set_butlastD)
          ultimately show "next_in_table (syms m' s) = next_in_table (syms m s)" using nxt by simp
        qed
        from chain_snoc [OF chi False dxs fxs fresh(1) this nxtl [OF False] newf(4)]
        show ?thesis using True i len arr False by simp
      qed
    next
      case False
      have ck: "chain m (arrays m ?b k) (css ! k)" using ok k by (simp add: table_ok_def)
      have disj: "set (css ! k) \<inter> set ?xs = {}"
        using distinct_chains [OF dist, of k ?i] k i len False by simp
      have sub: "set (css ! k) \<subseteq> set (concat css)" using k len by (intro nth_subset_concat) simp
      have "\<forall>s\<in>set (css ! k). next_in_table (syms m' s) = next_in_table (syms m s)"
      proof
        fix s assume s: "s \<in> set (css ! k)"
        then have "s \<noteq> f" using sub fresh(2) by auto
        moreover have "?xs = [] \<or> s \<noteq> last ?xs" using s disj last_in_set by fastforce
        ultimately show "next_in_table (syms m' s) = next_in_table (syms m s)" using nxt by simp
      qed
      then have "chain m' (arrays m ?b k) (css ! k)" using ck chain_frame by blast
      then show ?thesis using False arr by simp
    qed
  qed
  have setc: "set (concat ?css) = insert f (set (concat css))"
    using i len by (intro set_concat_snoc) simp
  have distc: "distinct (concat ?css)"
    using i len dist fresh(2) by (intro distinct_concat_snoc) simp_all
  have idx: "\<forall>k<capacity t. \<forall>s\<in>set (?css ! k). unat (hash (syms m' s)) mod capacity t = k"
  proof (intro allI impI ballI)
    fix k s assume k: "k < capacity t" and s: "s \<in> set (?css ! k)"
    show "unat (hash (syms m' s)) mod capacity t = k"
    proof (cases "s = f")
      case True
      then have "k = ?i"
        using s k len fresh(2) nth_subset_concat [of k css] by (cases "k = ?i") auto
      then show ?thesis using True newf(2) by simp
    next
      case False
      then have "s \<in> set (css ! k)" using s k len i by (cases "k = ?i") auto
      then show ?thesis using ok k data [OF False] by (simp add: table_ok_def)
    qed
  qed
  have lens: "\<forall>s\<in>set (concat ?css). length_sym (syms m' s) = length (name (syms m' s))"
  proof
    fix s assume "s \<in> set (concat ?css)"
    then have s: "s = f \<or> s \<in> set (concat css)" unfolding setc by simp
    show "length_sym (syms m' s) = length (name (syms m' s))"
    proof (cases "s = f")
      case True
      then show ?thesis using newf by simp
    next
      case False
      then have "length_sym (syms m s) = length (name (syms m s))"
        using s ok by (simp add: table_ok_def del: set_concat)
      then show ?thesis using data [OF False] by simp
    qed
  qed
  have names: "distinct (map (\<lambda>s. name (syms m' s)) (concat ?css))"
  proof -
    have inj: "inj_on (\<lambda>s. name (syms m s)) (set (concat css))"
      using ok by (simp add: table_ok_def distinct_map)
    have "inj_on (\<lambda>s. name (syms m' s)) (insert f (set (concat css)))"
    proof (rule inj_onI)
      fix x y assume x: "x \<in> insert f (set (concat css))" and y: "y \<in> insert f (set (concat css))"
        and e: "name (syms m' x) = name (syms m' y)"
      show "x = y"
      proof (cases "x = f"; cases "y = f")
        assume "x \<noteq> f" "y \<noteq> f"
        then show ?thesis using x y e data inj by (auto dest: inj_onD simp del: set_concat)
      qed (use x y e data newf(1) newname in \<open>auto simp del: set_concat\<close>)
    qed
    then show ?thesis using distc setc by (simp add: distinct_map del: set_concat)
  qed
  have ok': "table_ok t m' ?css"
    unfolding table_ok_def using b0 i len chains idx distc lens names by simp
  have keys: "\<forall>s\<in>set ?xs. \<not> key_of m' nm h s"
  proof
    fix s assume s: "s \<in> set ?xs"
    then have "s \<noteq> f" "name (syms m s) \<noteq> nm" using fxs xs_sub newname by auto
    then show "\<not> key_of m' nm h s" using data by (simp add: key_of_def)
  qed
  have keyf: "key_of m' nm h f" using newf by (simp add: key_of_def)
  have "dSymbols_lookup t m' nm (length nm) h = Some (sl, True)"
    using dSymbols_lookup_walk [OF ok', of nm h] walk_slot_snoc_new [OF keys keyf] sl i len
    by simp
  then show ?thesis using pl ok' data newf rdsl by blast
qed

lemma table_inv_ok: "table_inv H live t m css a \<Longrightarrow> table_ok t m css"
  by (simp add: table_inv_def)

lemma lookup_absent:
  assumes ok: "table_ok t m css" and newname: "\<forall>s\<in>set (concat css). name (syms m s) \<noteq> nm"
  shows "\<exists>sl. dSymbols_lookup t m nm (length nm) h = Some (sl, False)"
proof -
  from dSymbols_lookup_total [OF ok, of nm h] obtain sl f where
    l: "dSymbols_lookup t m nm (length nm) h = Some (sl, f)" by blast
  have "\<not> f"
  proof
    assume f
    with l have "dSymbols_lookup t m nm (length nm) h = Some (sl, True)" by simp
    from dSymbols_lookup_True [OF ok this] newname show False by blast
  qed
  with l show ?thesis by auto
qed

lemma dSymbols_intern_found:
  assumes inv: "table_inv H live t m css a" and s: "s \<in> set (concat css)" "name (syms m s) = nm"
  shows "\<exists>sl. dSymbols_intern t m a nm (length nm) (H nm) = Some (sl, t, m, a) \<and>
     read_slot m sl = Some s \<and> dSymbols_lookup t m nm (length nm) (H nm) = Some (sl, True)"
proof -
  have ok: "table_ok t m css" using inv by (rule table_inv_ok)
  have h: "hash (syms m s) = H nm" using inv s by (simp add: table_inv_def del: set_concat)
  from dSymbols_lookup_found [OF ok s(1) s(2) h] obtain sl where
    "dSymbols_lookup t m nm (length nm) (H nm) = Some (sl, True)" "read_slot m sl = Some s"
    by blast
  then show ?thesis by (simp add: dSymbols_intern_def)
qed

lemma dSymbols_intern_new:
  assumes inv: "table_inv H live t m css a"
    and newname: "\<forall>s\<in>set (concat css). name (syms m s) \<noteq> nm"
  shows "\<exists>sl t1 m1 a1 css1.
     dSymbols_intern t m a nm (length nm) (H nm) = Some (sl, t1, m1, a1) \<and>
     table_ok t1 m1 css1 \<and> set (concat css1) = set (concat css) \<and>
     length (concat css1) = length (concat css) \<and> same_data m1 m \<and>
     count t1 = count t + 1 \<and> alloc_contract live a1 \<and> live (user_data a1) (buckets t1) \<and>
     dSymbols_lookup t1 m1 nm (length nm) (H nm) = Some (sl, False) \<and>
     (\<not> dSymbols_should_grow t (count t + 1) \<longrightarrow>
        capacity t1 = capacity t \<and> buckets t1 = buckets t \<and> a1 = a) \<and>
     (dSymbols_should_grow t (count t + 1) \<longrightarrow>
        (\<exists>nc. grow_capacity (capacity t) (count t + 1) = Some nc \<and>
           capacity t1 = (if fst (dAlloc_alloc a (sizeof_ptr * nc)) = 0 then capacity t else nc)))"
proof -
  let ?h = "H nm" and ?n = "count t + 1"
  have ok: "table_ok t m css" using inv by (rule table_inv_ok)
  have con: "alloc_contract live a" and lv: "live (user_data a) (buckets t)"
    using inv by (simp_all add: table_inv_def)
  from lookup_absent [OF ok newname] obtain sl0 where
    l0: "dSymbols_lookup t m nm (length nm) ?h = Some (sl0, False)" by blast
  show ?thesis
  proof (cases "dSymbols_should_grow t ?n")
    case False
    have "dSymbols_intern t m a nm (length nm) ?h = Some (sl0, t\<lparr>count := ?n\<rparr>, m, a)"
      using l0 False by (simp add: dSymbols_intern_def)
    moreover have "table_ok (t\<lparr>count := ?n\<rparr>) m css" using ok by (simp add: table_ok_count)
    moreover have "dSymbols_lookup (t\<lparr>count := ?n\<rparr>) m nm (length nm) ?h = Some (sl0, False)"
      using l0 by (simp add: dSymbols_lookup_count)
    ultimately show ?thesis using False con lv same_data_refl [of m]
      by (intro exI [of _ sl0] exI [of _ "t\<lparr>count := ?n\<rparr>"] exI [of _ m] exI [of _ a] exI [of _ css])
        simp
  next
    case True
    have cap: "0 < capacity t" using ok by (simp add: table_ok_def)
    from grow_capacity_total [OF cap, of ?n] obtain nc where
      nc: "grow_capacity (capacity t) ?n = Some nc" "capacity t \<le> nc" by blast
    have nc0: "0 < nc" using cap nc(2) by simp
    obtain nb a' where al: "dAlloc_alloc a (sizeof_ptr * nc) = (nb, a')"
      by (cases "dAlloc_alloc a (sizeof_ptr * nc)")
    have con': "alloc_contract live a'" and lv': "live (user_data a') (buckets t)"
      and nbb: "nb \<noteq> buckets t" and lvn: "nb \<noteq> 0 \<Longrightarrow> live (user_data a') nb"
      using alloc_contract_alloc [OF con al] lv by auto
    have ens: "dSymbols_ensure_capacity t m a ?n = dSymbols_resize t m a nc"
      using True nc(1) by (simp add: dSymbols_ensure_capacity_def dSymbols_should_grow_def)
    have "\<exists>t1 m1 a1 css1. dSymbols_resize t m a nc = Some (t1, m1, a1) \<and>
        table_ok t1 m1 css1 \<and> set (concat css1) = set (concat css) \<and>
        length (concat css1) = length (concat css) \<and> same_data m1 m \<and> count t1 = count t \<and>
        alloc_contract live a1 \<and> live (user_data a1) (buckets t1) \<and>
        capacity t1 = (if nb = 0 then capacity t else nc)"
    proof (cases "nb = 0")
      case z: True
      then have "dSymbols_resize t m a nc = Some (t, m, a')"
        using al by (simp add: dSymbols_resize_def)
      then show ?thesis using ok con' lv' z same_data_refl [of m] by auto
    next
      case nz: False
      let ?t = "t\<lparr>buckets := nb, capacity := nc\<rparr>"
      let ?a = "snd (dAlloc_free a' (buckets t))"
      from dSymbols_resize_ok [OF ok al nz nbb nc0] obtain m' css' where
        r: "dSymbols_resize t m a nc = Some (?t, m', ?a)" "table_ok ?t m' css'"
          "set (concat css') = set (concat css)" "length (concat css') = length (concat css)"
          "same_data m' m"
        by blast
      have "alloc_contract live ?a" using con' by (rule alloc_contract_free)
      moreover have "live (user_data ?a) (buckets ?t)"
        using alloc_contract_free(2) [OF con' lvn [OF nz], of "buckets t"] nbb by simp
      ultimately show ?thesis using r nz
        by (intro exI [of _ ?t] exI [of _ m'] exI [of _ ?a] exI [of _ css']) simp
    qed
    then obtain t1 m1 a1 css1 where
      r: "dSymbols_resize t m a nc = Some (t1, m1, a1)" "table_ok t1 m1 css1"
        "set (concat css1) = set (concat css)" "length (concat css1) = length (concat css)"
        "same_data m1 m" "count t1 = count t" "alloc_contract live a1"
        "live (user_data a1) (buckets t1)" "capacity t1 = (if nb = 0 then capacity t else nc)"
      by blast
    have new1: "\<forall>s\<in>set (concat css1). name (syms m1 s) \<noteq> nm"
      using newname r(3,5) by (simp add: same_data_def del: set_concat)
    from lookup_absent [OF r(2) new1] obtain sl1 where
      l1: "dSymbols_lookup t1 m1 nm (length nm) ?h = Some (sl1, False)" by blast
    let ?t1 = "t1\<lparr>count := ?n\<rparr>"
    have "dSymbols_intern t m a nm (length nm) ?h = Some (sl1, ?t1, m1, a1)"
      using l0 True ens r(1) l1 by (simp add: dSymbols_intern_def)
    moreover have "table_ok ?t1 m1 css1" using r(2) by (simp add: table_ok_count)
    moreover have "dSymbols_lookup ?t1 m1 nm (length nm) ?h = Some (sl1, False)"
      using l1 by (simp add: dSymbols_lookup_count)
    moreover have "\<exists>nc. grow_capacity (capacity t) ?n = Some nc \<and>
        capacity ?t1 = (if fst (dAlloc_alloc a (sizeof_ptr * nc)) = 0 then capacity t else nc)"
      using nc(1) al r(9) by auto
    ultimately show ?thesis using True r(3-8)
      by (intro exI [of _ sl1] exI [of _ ?t1] exI [of _ m1] exI [of _ a1] exI [of _ css1]) simp
  qed
qed

lemma table_ok_not_null: "table_ok t m css \<Longrightarrow> 0 \<notin> set (concat css)"
proof
  assume ok: "table_ok t m css" and "0 \<in> set (concat css)"
  then obtain j where j: "j < length css" "0 \<in> set (css ! j)" unfolding in_concat_nth by blast
  then have "chain m (arrays m (buckets t) j) (css ! j)" using ok by (simp add: table_ok_def)
  from chain_not_null [OF this] j(2) show False by simp
qed

lemma intern_symbol_found:
  assumes inv: "table_inv H live t m css a" and s: "s \<in> set (concat css)" "name (syms m s) = nm"
  shows "\<exists>sl. intern_symbol H t m a f nm = Some (sl, s, t, m, a) \<and>
     dSymbols_lookup t m nm (length nm) (H nm) = Some (sl, True) \<and> read_slot m sl = Some s"
proof -
  from dSymbols_intern_found [OF inv s] obtain sl where
    i: "dSymbols_intern t m a nm (length nm) (H nm) = Some (sl, t, m, a)"
      "read_slot m sl = Some s" "dSymbols_lookup t m nm (length nm) (H nm) = Some (sl, True)"
    by blast
  have "s \<noteq> 0" using table_ok_not_null [OF table_inv_ok [OF inv]] s(1) by metis
  then show ?thesis using i by (simp add: intern_symbol_def)
qed

lemma intern_symbol_new:
  assumes inv: "table_inv H live t m css a"
    and newname: "\<forall>s\<in>set (concat css). name (syms m s) \<noteq> nm"
    and fresh: "f \<noteq> 0" "f \<notin> set (concat css)"
  shows "\<exists>sl t' m' a' css'. intern_symbol H t m a f nm = Some (sl, f, t', m', a') \<and>
     table_inv H live t' m' css' a' \<and> set (concat css') = insert f (set (concat css)) \<and>
     name (syms m' f) = nm \<and>
     (\<forall>s\<in>set (concat css). name (syms m' s) = name (syms m s)) \<and>
     dSymbols_lookup t' m' nm (length nm) (H nm) = Some (sl, True) \<and> read_slot m' sl = Some f \<and>
     count t' = count t + 1 \<and>
     (\<not> dSymbols_should_grow t (count t + 1) \<longrightarrow>
        capacity t' = capacity t \<and> buckets t' = buckets t \<and> a' = a) \<and>
     (dSymbols_should_grow t (count t + 1) \<longrightarrow>
        (\<exists>nc. grow_capacity (capacity t) (count t + 1) = Some nc \<and>
           capacity t' = (if fst (dAlloc_alloc a (sizeof_ptr * nc)) = 0 then capacity t else nc)))"
proof -
  let ?h = "H nm"
  from dSymbols_intern_new [OF inv newname] obtain sl t1 m1 a1 css1 where
    i: "dSymbols_intern t m a nm (length nm) ?h = Some (sl, t1, m1, a1)"
    and ok1: "table_ok t1 m1 css1"
    and set1: "set (concat css1) = set (concat css)"
    and len1: "length (concat css1) = length (concat css)"
    and sd: "same_data m1 m"
    and cnt: "count t1 = count t + 1"
    and con: "alloc_contract live a1" "live (user_data a1) (buckets t1)"
    and l1: "dSymbols_lookup t1 m1 nm (length nm) ?h = Some (sl, False)"
    and ng: "\<not> dSymbols_should_grow t (count t + 1) \<longrightarrow>
        capacity t1 = capacity t \<and> buckets t1 = buckets t \<and> a1 = a"
    and gr: "dSymbols_should_grow t (count t + 1) \<longrightarrow>
        (\<exists>nc. grow_capacity (capacity t) (count t + 1) = Some nc \<and>
           capacity t1 = (if fst (dAlloc_alloc a (sizeof_ptr * nc)) = 0 then capacity t else nc))"
    by blast
  have rd: "read_slot m1 sl = Some 0" using dSymbols_lookup_False [OF ok1 l1] by blast
  have fresh1: "f \<notin> set (concat css1)" using fresh(2) set1 by simp
  have new1: "\<forall>s\<in>set (concat css1). name (syms m1 s) \<noteq> nm"
    using newname set1 sd by (simp add: same_data_def del: set_concat)
  let ?i = "unat ?h mod capacity t1"
  let ?css = "css1[?i := css1 ! ?i @ [f]]"
  from place_symbol_ok [OF ok1 l1 fresh(1) fresh1 new1] obtain m' where
    p: "place_symbol m1 sl f nm (length nm) ?h = Some m'" "table_ok t1 m' ?css"
      "\<forall>s. s \<noteq> f \<longrightarrow> name (syms m' s) = name (syms m1 s) \<and> hash (syms m' s) = hash (syms m1 s)"
      "name (syms m' f) = nm" "hash (syms m' f) = ?h"
      "dSymbols_lookup t1 m' nm (length nm) ?h = Some (sl, True)" "read_slot m' sl = Some f"
    by blast
  have i1: "?i < length css1" using ok1 by (simp add: table_ok_def)
  have setc: "set (concat ?css) = insert f (set (concat css))"
    using set_concat_snoc [OF i1, of f] set1 by (simp del: set_concat)
  have lenc: "length (concat ?css) = Suc (length (concat css))"
    using length_concat_snoc [OF i1, of f] len1 by simp
  have stable: "\<forall>s\<in>set (concat css). name (syms m' s) = name (syms m s)
      \<and> hash (syms m' s) = hash (syms m s)"
    using p(3) fresh(2) sd by (auto simp: same_data_def simp del: set_concat)
  have hashes: "\<forall>s\<in>set (concat ?css). hash (syms m' s) = H (name (syms m' s))"
    unfolding setc using stable p(4,5) inv by (auto simp: table_inv_def simp del: set_concat)
  have inv': "table_inv H live t1 m' ?css a1"
    unfolding table_inv_def using p(2) hashes cnt lenc inv con by (simp add: table_inv_def)
  have "intern_symbol H t m a f nm = Some (sl, f, t1, m', a1)"
    using i rd p(1) by (simp add: intern_symbol_def)
  then show ?thesis using inv' setc p(4,6,7) stable cnt ng gr
    by (intro exI [of _ sl] exI [of _ t1] exI [of _ m'] exI [of _ a1] exI [of _ ?css]) simp
qed

lemma intern_symbol_step:
  assumes inv: "table_inv H live t m css a" and fresh: "f \<noteq> 0" "f \<notin> set (concat css)"
  shows "\<exists>sl p t1 m1 a1 css1. intern_symbol H t m a f nm = Some (sl, p, t1, m1, a1) \<and>
     table_inv H live t1 m1 css1 a1 \<and>
     set (concat css) \<subseteq> set (concat css1) \<and> set (concat css1) \<subseteq> insert f (set (concat css)) \<and>
     p \<in> set (concat css1) \<and> name (syms m1 p) = nm \<and>
     (\<forall>s\<in>set (concat css). name (syms m1 s) = name (syms m s)) \<and>
     dSymbols_lookup t1 m1 nm (length nm) (H nm) = Some (sl, True) \<and>
     (\<forall>sl'. dSymbols_lookup t m nm (length nm) (H nm) = Some (sl', True) \<longrightarrow> sl = sl')"
proof (cases "\<exists>s\<in>set (concat css). name (syms m s) = nm")
  case True
  then obtain s where s: "s \<in> set (concat css)" "name (syms m s) = nm" by blast
  from intern_symbol_found [OF inv s, of f] obtain sl where
    "intern_symbol H t m a f nm = Some (sl, s, t, m, a)"
    "dSymbols_lookup t m nm (length nm) (H nm) = Some (sl, True)"
    by blast
  then show ?thesis using inv s
    by (intro exI [of _ sl] exI [of _ s] exI [of _ t] exI [of _ m] exI [of _ a] exI [of _ css])
      (auto simp del: set_concat)
next
  case False
  then have newname: "\<forall>s\<in>set (concat css). name (syms m s) \<noteq> nm" by blast
  from intern_symbol_new [OF inv newname fresh] obtain sl t' m' a' css' where
    r: "intern_symbol H t m a f nm = Some (sl, f, t', m', a')" "table_inv H live t' m' css' a'"
      "set (concat css') = insert f (set (concat css))" "name (syms m' f) = nm"
      "\<forall>s\<in>set (concat css). name (syms m' s) = name (syms m s)"
      "dSymbols_lookup t' m' nm (length nm) (H nm) = Some (sl, True)"
    by blast
  from lookup_absent [OF table_inv_ok [OF inv] newname, of "H nm"]
  have "\<forall>sl'. dSymbols_lookup t m nm (length nm) (H nm) = Some (sl', True) \<longrightarrow> sl = sl'"
    by auto
  then show ?thesis using r
    by (intro exI [of _ sl] exI [of _ f] exI [of _ t'] exI [of _ m'] exI [of _ a'] exI [of _ css'])
      (auto simp del: set_concat)
qed

lemma intern_all_inv:
  assumes "table_inv H live t m css a" "distinct fs" "0 \<notin> set fs"
    "set fs \<inter> set (concat css) = {}" "length fs = length nms"
  shows "\<exists>rs t' m' a' css'. intern_all H t m a (zip fs nms) = Some (rs, t', m', a') \<and>
     length rs = length nms \<and> table_inv H live t' m' css' a' \<and>
     set (concat css) \<subseteq> set (concat css') \<and> set (concat css') \<subseteq> set (concat css) \<union> set fs \<and>
     (\<forall>s\<in>set (concat css). name (syms m' s) = name (syms m s)) \<and>
     (\<forall>i<length nms. snd (rs ! i) \<in> set (concat css') \<and> name (syms m' (snd (rs ! i))) = nms ! i) \<and>
     (\<forall>i. Suc i < length nms \<and> nms ! i = nms ! Suc i \<longrightarrow> fst (rs ! i) = fst (rs ! Suc i)) \<and>
     (\<forall>sl. nms \<noteq> [] \<and>
        dSymbols_lookup t m (hd nms) (length (hd nms)) (H (hd nms)) = Some (sl, True) \<longrightarrow>
        fst (hd rs) = sl)"
  using assms
proof (induction nms arbitrary: fs t m a css)
  case Nil
  then show ?case
    by (intro exI [of _ "[]"] exI [of _ t] exI [of _ m] exI [of _ a] exI [of _ css]) simp
next
  case (Cons nm nms)
  then obtain f fs' where fs: "fs = f # fs'" by (cases fs) auto
  have f: "f \<noteq> 0" "f \<notin> set (concat css)" using Cons.prems fs by (auto simp del: set_concat)
  from intern_symbol_step [OF Cons.prems(1) f, of nm] obtain sl p t1 m1 a1 css1 where
    s: "intern_symbol H t m a f nm = Some (sl, p, t1, m1, a1)"
    and inv1: "table_inv H live t1 m1 css1 a1"
    and sub1: "set (concat css) \<subseteq> set (concat css1)" "set (concat css1) \<subseteq> insert f (set (concat css))"
    and p: "p \<in> set (concat css1)" "name (syms m1 p) = nm"
    and st1: "\<forall>s\<in>set (concat css). name (syms m1 s) = name (syms m s)"
    and l1: "dSymbols_lookup t1 m1 nm (length nm) (H nm) = Some (sl, True)"
    and l0: "\<forall>sl'. dSymbols_lookup t m nm (length nm) (H nm) = Some (sl', True) \<longrightarrow> sl = sl'"
    by blast
  have pre: "distinct fs'" "0 \<notin> set fs'" "set fs' \<inter> set (concat css1) = {}" "length fs' = length nms"
    using Cons.prems fs sub1 by (auto simp del: set_concat)
  from Cons.IH [OF inv1 pre] obtain rs t' m' a' css' where
    r: "intern_all H t1 m1 a1 (zip fs' nms) = Some (rs, t', m', a')"
    and len: "length rs = length nms"
    and inv': "table_inv H live t' m' css' a'"
    and sub: "set (concat css1) \<subseteq> set (concat css')" "set (concat css') \<subseteq> set (concat css1) \<union> set fs'"
    and st: "\<forall>s\<in>set (concat css1). name (syms m' s) = name (syms m1 s)"
    and ids: "\<forall>i<length nms. snd (rs ! i) \<in> set (concat css') \<and> name (syms m' (snd (rs ! i))) = nms ! i"
    and adj: "\<forall>i. Suc i < length nms \<and> nms ! i = nms ! Suc i \<longrightarrow> fst (rs ! i) = fst (rs ! Suc i)"
    and first: "\<forall>sl. nms \<noteq> [] \<and>
        dSymbols_lookup t1 m1 (hd nms) (length (hd nms)) (H (hd nms)) = Some (sl, True) \<longrightarrow>
        fst (hd rs) = sl"
    by blast
  let ?rs = "(sl, p) # rs"
  have run: "intern_all H t m a (zip fs (nm # nms)) = Some (?rs, t', m', a')"
    using s r fs by simp
  have c1: "set (concat css) \<subseteq> set (concat css')" using sub1 sub by blast
  have c2: "set (concat css') \<subseteq> set (concat css) \<union> set fs"
    using sub1 sub fs by (auto simp del: set_concat)
  have c3: "\<forall>s\<in>set (concat css). name (syms m' s) = name (syms m s)"
    using st st1 sub1 by (auto simp del: set_concat)
  have c4: "\<forall>i<length (nm # nms).
      snd (?rs ! i) \<in> set (concat css') \<and> name (syms m' (snd (?rs ! i))) = (nm # nms) ! i"
  proof (intro allI impI)
    fix i assume i: "i < length (nm # nms)"
    show "snd (?rs ! i) \<in> set (concat css') \<and> name (syms m' (snd (?rs ! i))) = (nm # nms) ! i"
    proof (cases i)
      case 0
      then show ?thesis using p st sub by (auto simp del: set_concat)
    next
      case (Suc k)
      then show ?thesis using ids i by simp
    qed
  qed
  have c5: "\<forall>i. Suc i < length (nm # nms) \<and> (nm # nms) ! i = (nm # nms) ! Suc i \<longrightarrow>
      fst (?rs ! i) = fst (?rs ! Suc i)"
  proof (intro allI impI)
    fix i assume i: "Suc i < length (nm # nms) \<and> (nm # nms) ! i = (nm # nms) ! Suc i"
    show "fst (?rs ! i) = fst (?rs ! Suc i)"
    proof (cases i)
      case 0
      then have ne: "nms \<noteq> []" and hd: "hd nms = nm" using i by (auto simp: hd_conv_nth)
      have "rs \<noteq> []" using len ne by auto
      then have "rs ! 0 = hd rs" by (simp add: hd_conv_nth)
      moreover have "fst (hd rs) = sl" using first ne hd l1 by simp
      ultimately show ?thesis using 0 by simp
    next
      case (Suc k)
      then show ?thesis using adj i by simp
    qed
  qed
  have c6: "\<forall>sl'. nm # nms \<noteq> [] \<and>
        dSymbols_lookup t m (hd (nm # nms)) (length (hd (nm # nms))) (H (hd (nm # nms))) = Some (sl', True) \<longrightarrow>
        fst (hd ?rs) = sl'"
    using l0 by simp
  have c0: "length ?rs = length (nm # nms)" using len by simp
  from run c0 inv' c1 c2 c3 c4 c5 c6 show ?case by blast
qed

text \<open>
  Claim C1. Start from any well-formed table whose symbols carry the hash \<open>H\<close> of their
  names, and intern any list of byte sequences, the caller placing each created symbol in the
  returned slot. Every call returns. Two of the calls give the same symbol if and only if
  their byte sequences are equal (as lists: same length and same bytes), whatever \<open>H\<close> is, so
  sequences with the same hash and different content are never merged. Interning the same
  sequence twice in a row gives the same slot both times. The symbol returned for a sequence
  stores that sequence and its length.
\<close>

theorem interning_deduplicates:
  assumes "table_inv H live t m css a" and "distinct fs" and "0 \<notin> set fs"
    and "set fs \<inter> set (concat css) = {}" and "length fs = length nms"
  shows "\<exists>rs t' m' a'. intern_all H t m a (zip fs nms) = Some (rs, t', m', a') \<and>
     length rs = length nms \<and>
     (\<forall>i<length nms. \<forall>j<length nms. snd (rs ! i) = snd (rs ! j) \<longleftrightarrow> nms ! i = nms ! j) \<and>
     (\<forall>i. Suc i < length nms \<and> nms ! i = nms ! Suc i \<longrightarrow> fst (rs ! i) = fst (rs ! Suc i)) \<and>
     (\<forall>i<length nms. name (syms m' (snd (rs ! i))) = nms ! i \<and>
        length_sym (syms m' (snd (rs ! i))) = length (nms ! i))"
proof -
  from intern_all_inv [OF assms] obtain rs t' m' a' css' where
    r: "intern_all H t m a (zip fs nms) = Some (rs, t', m', a')" "length rs = length nms"
    and inv': "table_inv H live t' m' css' a'"
    and ids: "\<forall>i<length nms. snd (rs ! i) \<in> set (concat css') \<and> name (syms m' (snd (rs ! i))) = nms ! i"
    and adj: "\<forall>i. Suc i < length nms \<and> nms ! i = nms ! Suc i \<longrightarrow> fst (rs ! i) = fst (rs ! Suc i)"
    by blast
  have ok': "table_ok t' m' css'" using inv' by (rule table_inv_ok)
  have eq: "\<forall>i<length nms. \<forall>j<length nms. snd (rs ! i) = snd (rs ! j) \<longleftrightarrow> nms ! i = nms ! j"
  proof (intro allI impI)
    fix i j assume i: "i < length nms" and j: "j < length nms"
    show "snd (rs ! i) = snd (rs ! j) \<longleftrightarrow> nms ! i = nms ! j"
    proof
      assume "snd (rs ! i) = snd (rs ! j)"
      then show "nms ! i = nms ! j" using ids i j by metis
    next
      assume "nms ! i = nms ! j"
      then have "name (syms m' (snd (rs ! i))) = name (syms m' (snd (rs ! j)))"
        using ids i j by simp
      then show "snd (rs ! i) = snd (rs ! j)"
        using table_ok_name_inj [OF ok'] ids i j by blast
    qed
  qed
  have lens: "\<forall>i<length nms. name (syms m' (snd (rs ! i))) = nms ! i \<and>
        length_sym (syms m' (snd (rs ! i))) = length (nms ! i)"
    using ids ok' by (auto simp: table_ok_def simp del: set_concat)
  from r eq adj lens show ?thesis by blast
qed

lemma test_fn_contract: "alloc_contract test_live \<lparr>user_data = ud, fn = test_fn\<rparr>"
  by (auto simp: alloc_contract_def test_live_def test_fn_def split: prod.splits)

lemma table_inv_two: "table_inv H test_live table_two blank_mem [[], []] allocator_two"
  unfolding table_inv_def allocator_two_def
  by (simp add: test_fn_contract table_ok_def table_two_def blank_mem_def test_live_def
      less_Suc_eq numeral_2_eq_2)

theorem interning_deduplicates_witness:
  "table_inv (\<lambda>_. 0) test_live table_two blank_mem [[], []] allocator_two \<and>
   distinct [10, 11, 12 :: addr] \<and> (0::addr) \<notin> set [10, 11, 12] \<and>
   set [10, 11, 12 :: addr] \<inter> set (concat [[], []]) = {} \<and>
   (\<exists>rs t' m' a'.
      intern_all (\<lambda>_. 0) table_two blank_mem allocator_two
        (zip [10, 11, 12] [[97], [98], [97]]) = Some (rs, t', m', a') \<and>
      snd (rs ! 0) = snd (rs ! 2) \<and> snd (rs ! 0) \<noteq> snd (rs ! 1))"
proof -
  have h: "distinct [10, 11, 12 :: addr]" "(0::addr) \<notin> set [10, 11, 12]"
    "set [10, 11, 12 :: addr] \<inter> set (concat [[], []]) = {}"
    "length [10, 11, 12 :: addr] = length [[97], [98], [97 :: 8 word]]"
    by simp_all
  from interning_deduplicates [OF table_inv_two h, of "\<lambda>_. 0"] obtain rs t' m' a' where
    r: "intern_all (\<lambda>_. 0) table_two blank_mem allocator_two
        (zip [10, 11, 12] [[97], [98], [97]]) = Some (rs, t', m', a')"
    and e: "\<forall>i<length [[97], [98], [97 :: 8 word]]. \<forall>j<length [[97], [98], [97 :: 8 word]].
        snd (rs ! i) = snd (rs ! j) \<longleftrightarrow> [[97], [98], [97 :: 8 word]] ! i = [[97], [98], [97]] ! j"
    by blast
  have "snd (rs ! 0) = snd (rs ! 2)" using e [rule_format, of 0 2] by simp
  moreover have "snd (rs ! 0) \<noteq> snd (rs ! 1)" using e [rule_format, of 0 1] by simp
  ultimately show ?thesis using r h table_inv_two by blast
qed

lemma dSymbols_init_inv:
  assumes "alloc_contract live a0" "dAlloc_alloc a0 (sizeof_ptr * n) = (b, a1)" "b \<noteq> 0" "0 < n"
  shows "\<exists>m. dSymbols_init t0 m0 a0 n = Some (t0\<lparr>count := 0, capacity := n, buckets := b\<rparr>, m, a1) \<and>
     table_inv H live (t0\<lparr>count := 0, capacity := n, buckets := b\<rparr>) m (replicate n []) a1"
proof -
  from null_fill_ok [OF assms(3), of m0 n 0] obtain m where
    m: "null_fill m0 b n 0 = Some m" "\<forall>j. 0 \<le> j \<and> j < n \<longrightarrow> arrays m b j = 0" by blast
  have "dSymbols_init t0 m0 a0 n = Some (t0\<lparr>count := 0, capacity := n, buckets := b\<rparr>, m, a1)"
    using assms(2) m(1) by (simp add: dSymbols_init_def)
  moreover have "table_ok (t0\<lparr>count := 0, capacity := n, buckets := b\<rparr>) m (replicate n [])"
    using assms(3,4) m(2) by (simp add: table_ok_def)
  moreover have "alloc_contract live a1" "live (user_data a1) b"
    using alloc_contract_alloc [OF assms(1,2)] assms(3) by simp_all
  ultimately show ?thesis by (auto simp: table_inv_def)
qed

lemma intern_all_snoc:
  "intern_all H t m a (xs @ [(f, nm)]) =
     do {
       (rs, t1, m1, a1) \<leftarrow> intern_all H t m a xs;
       (sl, p, t2, m2, a2) \<leftarrow> intern_symbol H t1 m1 a1 f nm;
       Some (rs @ [(sl, p)], t2, m2, a2)
     }"
proof (induction xs arbitrary: t m a)
  case Nil
  show ?case by (cases "intern_symbol H t m a f nm") auto
next
  case (Cons x xs)
  obtain g n where x: "x = (g, n)" by (cases x)
  show ?case
  proof (cases "intern_symbol H t m a g n")
    case None
    then show ?thesis using x by simp
  next
    case (Some r)
    obtain sl p t1 m1 a1 where r: "r = (sl, p, t1, m1, a1)" by (cases r)
    show ?thesis
    proof (cases "intern_all H t1 m1 a1 xs")
      case None
      then show ?thesis using x Some r Cons.IH [of t1 m1 a1] by simp
    next
      case inner: (Some q)
      obtain rs t2 m2 a2 where q: "q = (rs, t2, m2, a2)" by (cases q)
      show ?thesis
        using x Some r inner q Cons.IH [of t1 m1 a1]
        by (cases "intern_symbol H t2 m2 a2 f nm") auto
    qed
  qed
qed

lemma intern_all_below_threshold:
  assumes "table_inv H live t m css a" "distinct fs" "0 \<notin> set fs"
    "set fs \<inter> set (concat css) = {}" "length fs = length nms" "distinct nms"
    "\<forall>s\<in>set (concat css). name (syms m s) \<notin> set nms"
    "count t + length nms \<le> grow_threshold (capacity t)"
  shows "\<exists>rs t' m' css'. intern_all H t m a (zip fs nms) = Some (rs, t', m', a) \<and>
     table_inv H live t' m' css' a \<and> capacity t' = capacity t \<and>
     count t' = count t + length nms \<and> set (concat css') = set (concat css) \<union> set fs \<and>
     (\<forall>s\<in>set (concat css').
        name (syms m' s) \<in> (\<lambda>s. name (syms m s)) ` set (concat css) \<union> set nms)"
  using assms
proof (induction nms arbitrary: fs t m css)
  case Nil
  then show ?case
    by (intro exI [of _ "[]"] exI [of _ t] exI [of _ m] exI [of _ css]) (simp del: set_concat)
next
  case (Cons nm nms)
  then obtain f fs' where fs: "fs = f # fs'" by (cases fs) auto
  have f: "f \<noteq> 0" "f \<notin> set (concat css)" using Cons.prems fs by (auto simp del: set_concat)
  have newname: "\<forall>s\<in>set (concat css). name (syms m s) \<noteq> nm"
    using Cons.prems(7) by (auto simp del: set_concat)
  have nogrow: "\<not> dSymbols_should_grow t (count t + 1)"
    using Cons.prems(8) by (simp add: dSymbols_should_grow_def)
  from intern_symbol_new [OF Cons.prems(1) newname f] nogrow obtain sl t1 m1 css1 where
    s: "intern_symbol H t m a f nm = Some (sl, f, t1, m1, a)"
    and inv1: "table_inv H live t1 m1 css1 a"
    and set1: "set (concat css1) = insert f (set (concat css))"
    and nf: "name (syms m1 f) = nm"
    and st1: "\<forall>s\<in>set (concat css). name (syms m1 s) = name (syms m s)"
    and cnt1: "count t1 = count t + 1" and cap1: "capacity t1 = capacity t"
    by (auto simp del: set_concat)
  have pre: "distinct fs'" "0 \<notin> set fs'" "set fs' \<inter> set (concat css1) = {}"
    "length fs' = length nms" "distinct nms"
    using Cons.prems fs set1 by (auto simp del: set_concat)
  have names1: "\<forall>s\<in>set (concat css1). name (syms m1 s) \<notin> set nms"
    unfolding set1 using nf st1 Cons.prems(6,7) by (auto simp del: set_concat)
  have thr: "count t1 + length nms \<le> grow_threshold (capacity t1)"
    using Cons.prems(8) cnt1 cap1 by simp
  from Cons.IH [OF inv1 pre names1 thr] obtain rs t' m' css' where
    r: "intern_all H t1 m1 a (zip fs' nms) = Some (rs, t', m', a)"
    and inv': "table_inv H live t' m' css' a"
    and cap': "capacity t' = capacity t1" and cnt': "count t' = count t1 + length nms"
    and set': "set (concat css') = set (concat css1) \<union> set fs'"
    and nm': "\<forall>s\<in>set (concat css').
        name (syms m' s) \<in> (\<lambda>s. name (syms m1 s)) ` set (concat css1) \<union> set nms"
    by blast
  have run: "intern_all H t m a (zip fs (nm # nms)) = Some ((sl, f) # rs, t', m', a)"
    using s r fs by simp
  have c1: "capacity t' = capacity t" using cap' cap1 by simp
  have c2: "count t' = count t + length (nm # nms)" using cnt' cnt1 by simp
  have c3: "set (concat css') = set (concat css) \<union> set fs" using set' set1 fs by (auto simp del: set_concat)
  have "(\<lambda>s. name (syms m1 s)) ` set (concat css1) \<subseteq>
      (\<lambda>s. name (syms m s)) ` set (concat css) \<union> {nm}"
    unfolding set1 using nf st1 by (auto simp del: set_concat)
  then have c4: "\<forall>s\<in>set (concat css').
        name (syms m' s) \<in> (\<lambda>s. name (syms m s)) ` set (concat css) \<union> set (nm # nms)"
    using nm' by (simp del: set_concat) blast
  from run inv' c1 c2 c3 c4 show ?case by blast
qed

lemma grow_capacity_64_49: "grow_capacity 64 49 = Some 128"
proof -
  have "grow_capacity 64 49 = grow_capacity 128 49" by (subst grow_capacity.simps) simp
  also have "\<dots> = Some 128" by (subst grow_capacity.simps) simp
  finally show ?thesis .
qed

lemma zip_take_Suc:
  "i < length fs \<Longrightarrow> i < length nms \<Longrightarrow>
   zip (take (Suc i) fs) (take (Suc i) nms) = zip (take i fs) (take i nms) @ [(fs ! i, nms ! i)]"
  by (simp add: take_Suc_conv_app_nth)

text \<open>
  Claim C7. Initialise a table with the initial capacity 64 and intern fifty distinct names,
  the caller placing each created symbol in the returned slot, with an allocator that grants
  the initial array and the request for an array of 128 entries. All calls return. After 48
  names the capacity is still 64; interning the 49th makes the prospective count 49 exceed
  \<open>64 * 0.75 = 48\<close>, the table is resized, and the capacity is 128 once the 49th name has
  been interned; it is still at least 128 after the 50th.
\<close>

theorem grow_at_49th_symbol:
  assumes con: "alloc_contract live a0"
    and al0: "dAlloc_alloc a0 (sizeof_ptr * DYSL_SYMBOLS_INITIAL_CAPACITY) = (b, a1)" "b \<noteq> 0"
    and al1: "fst (dAlloc_alloc a1 (sizeof_ptr * 128)) \<noteq> 0"
    and nms: "distinct nms" "length nms = 50"
    and fs: "distinct fs" "0 \<notin> set fs" "length fs = 50"
  shows "\<exists>t m. dSymbols_init t0 m0 a0 DYSL_SYMBOLS_INITIAL_CAPACITY = Some (t, m, a1) \<and>
     capacity t = 64 \<and> count t = 0 \<and>
     (\<exists>rs t48 m48 a48. intern_all H t m a1 (zip (take 48 fs) (take 48 nms)) = Some (rs, t48, m48, a48) \<and>
        capacity t48 = 64 \<and> count t48 = 48) \<and>
     (\<exists>rs t49 m49 a49. intern_all H t m a1 (zip (take 49 fs) (take 49 nms)) = Some (rs, t49, m49, a49) \<and>
        capacity t49 = 128 \<and> count t49 = 49) \<and>
     (\<exists>rs t50 m50 a50. intern_all H t m a1 (zip fs nms) = Some (rs, t50, m50, a50) \<and>
        128 \<le> capacity t50 \<and> count t50 = 50)"
proof -
  let ?t = "t0\<lparr>count := 0, capacity := DYSL_SYMBOLS_INITIAL_CAPACITY, buckets := b\<rparr>"
  let ?css = "replicate DYSL_SYMBOLS_INITIAL_CAPACITY ([]::addr list)"
  have n0: "0 < DYSL_SYMBOLS_INITIAL_CAPACITY" by (simp add: DYSL_SYMBOLS_INITIAL_CAPACITY_def)
  from dSymbols_init_inv [OF con al0 n0, of t0 m0 H] obtain m where
    init: "dSymbols_init t0 m0 a0 DYSL_SYMBOLS_INITIAL_CAPACITY = Some (?t, m, a1)"
    and inv0: "table_inv H live ?t m ?css a1"
    by blast
  have cap0: "capacity ?t = 64" "count ?t = 0" by (simp_all add: DYSL_SYMBOLS_INITIAL_CAPACITY_def)
  have empty0: "set (concat ?css) = {}" by simp
  let ?ns = "take 48 nms" and ?gs = "take 48 fs"
  let ?x = "nms ! 48" and ?g = "fs ! 48" and ?y = "nms ! 49" and ?k = "fs ! 49"
  have n49: "take 49 nms = ?ns @ [?x]" and f49: "take 49 fs = ?gs @ [?g]"
    using nms(2) fs(3) take_Suc_conv_app_nth [of 48 nms] take_Suc_conv_app_nth [of 48 fs] by simp_all
  have n50: "nms = take 49 nms @ [?y]" and f50: "fs = take 49 fs @ [?k]"
    using nms(2) fs(3) take_Suc_conv_app_nth [of 49 nms] take_Suc_conv_app_nth [of 49 fs] by simp_all
  have dn: "distinct (?ns @ [?x, ?y])" using nms(1) n49 n50 by (metis append.assoc append_Cons append_Nil)
  have df: "distinct (?gs @ [?g, ?k])" using fs(1) f49 f50 by (metis append.assoc append_Cons append_Nil)
  have zf: "0 \<notin> set (?gs @ [?g, ?k])" using fs(2) f49 f50 by (metis append.assoc append_Cons append_Nil)
  have z49: "zip (take 49 fs) (take 49 nms) = zip ?gs ?ns @ [(?g, ?x)]"
    using zip_take_Suc [of 48 fs nms] nms(2) fs(3) by simp
  have z50: "zip fs nms = zip (take 49 fs) (take 49 nms) @ [(?k, ?y)]"
    using zip_take_Suc [of 49 fs nms] nms(2) fs(3) by simp
  have "\<exists>rs t' m' css'. intern_all H ?t m a1 (zip ?gs ?ns) = Some (rs, t', m', a1) \<and>
     table_inv H live t' m' css' a1 \<and> capacity t' = capacity ?t \<and>
     count t' = count ?t + length ?ns \<and> set (concat css') = set (concat ?css) \<union> set ?gs \<and>
     (\<forall>s\<in>set (concat css').
        name (syms m' s) \<in> (\<lambda>s. name (syms m s)) ` set (concat ?css) \<union> set ?ns)"
  proof (rule intern_all_below_threshold [OF inv0])
    show "distinct ?gs" "0 \<notin> set ?gs" "distinct ?ns" using df zf dn by simp_all
    show "set ?gs \<inter> set (concat ?css) = {}" by simp
    show "length ?gs = length ?ns" using nms(2) fs(3) by simp
    show "\<forall>s\<in>set (concat ?css). name (syms m s) \<notin> set ?ns" by simp
    show "count ?t + length ?ns \<le> grow_threshold (capacity ?t)"
      using nms(2) by (simp add: grow_threshold_def DYSL_SYMBOLS_INITIAL_CAPACITY_def)
  qed
  then obtain rs48 t48 m48 css48 where
    r48: "intern_all H ?t m a1 (zip ?gs ?ns) = Some (rs48, t48, m48, a1)"
    and inv48: "table_inv H live t48 m48 css48 a1"
    and cap48: "capacity t48 = 64" and cnt48: "count t48 = 48"
    and set48: "set (concat css48) = set ?gs"
    and nm48: "\<forall>s\<in>set (concat css48). name (syms m48 s) \<in> set ?ns"
    using cap0 nms(2) by (auto simp del: set_concat)
  have new49: "\<forall>s\<in>set (concat css48). name (syms m48 s) \<noteq> ?x" using nm48 dn by (auto simp del: set_concat)
  have g49: "?g \<noteq> 0" "?g \<notin> set (concat css48)" using zf df set48 by (auto simp del: set_concat)
  have grow49: "dSymbols_should_grow t48 (count t48 + 1)"
    using cap48 cnt48 by (simp add: dSymbols_should_grow_def grow_threshold_def)
  from intern_symbol_new [OF inv48 new49 g49] grow49 obtain sl49 t49 m49 a49 css49 nc where
    s49: "intern_symbol H t48 m48 a1 ?g ?x = Some (sl49, ?g, t49, m49, a49)"
    and inv49: "table_inv H live t49 m49 css49 a49"
    and set49: "set (concat css49) = insert ?g (set (concat css48))"
    and nx49: "name (syms m49 ?g) = ?x"
    and st49: "\<forall>s\<in>set (concat css48). name (syms m49 s) = name (syms m48 s)"
    and cnt49': "count t49 = count t48 + 1"
    and nc: "grow_capacity (capacity t48) (count t48 + 1) = Some nc"
      "capacity t49 = (if fst (dAlloc_alloc a1 (sizeof_ptr * nc)) = 0 then capacity t48 else nc)"
    by (auto simp del: set_concat)
  have "nc = 128" using nc(1) cap48 cnt48 grow_capacity_64_49 by simp
  then have cap49: "capacity t49 = 128" and cnt49: "count t49 = 49"
    using nc(2) al1 cnt49' cnt48 by simp_all
  have r49: "intern_all H ?t m a1 (zip (take 49 fs) (take 49 nms))
      = Some (rs48 @ [(sl49, ?g)], t49, m49, a49)"
    unfolding z49 intern_all_snoc using r48 s49 by simp
  have new50: "\<forall>s\<in>set (concat css49). name (syms m49 s) \<noteq> ?y"
    unfolding set49 using nx49 st49 nm48 dn by (auto simp del: set_concat)
  have k50: "?k \<noteq> 0" "?k \<notin> set (concat css49)" using zf df set48 set49 by (auto simp del: set_concat)
  have nogrow50: "\<not> dSymbols_should_grow t49 (count t49 + 1)"
    using cap49 cnt49 by (simp add: dSymbols_should_grow_def grow_threshold_def)
  from intern_symbol_new [OF inv49 new50 k50] nogrow50 obtain sl50 t50 m50 a50 where
    s50: "intern_symbol H t49 m49 a49 ?k ?y = Some (sl50, ?k, t50, m50, a50)"
    and cnt50': "count t50 = count t49 + 1" and cap50': "capacity t50 = capacity t49"
    by (auto simp del: set_concat)
  have r50: "intern_all H ?t m a1 (zip fs nms)
      = Some ((rs48 @ [(sl49, ?g)]) @ [(sl50, ?k)], t50, m50, a50)"
    by (subst z50, subst intern_all_snoc) (use r49 s50 in simp)
  have "128 \<le> capacity t50" "count t50 = 50" using cap50' cap49 cnt50' cnt49 by simp_all
  with init cap0 r48 cap48 cnt48 r49 cap49 cnt49 r50 show ?thesis by blast
qed

lemma distinct_fifty_names: "distinct fifty_names"
proof -
  have "inj_on (\<lambda>i. [0, 0, 0, of_nat i :: 8 word]) (set [0..<50])"
  proof (rule inj_onI)
    fix x y :: nat assume x: "x \<in> set [0..<50]" and y: "y \<in> set [0..<50]"
      and e: "[0, 0, 0, of_nat x :: 8 word] = [0, 0, 0, of_nat y]"
    then have "unat (of_nat x :: 8 word) = unat (of_nat y :: 8 word)" by simp
    then show "x = y" using x y by (simp add: unat_of_nat)
  qed
  then show ?thesis by (simp add: fifty_names_def distinct_map)
qed

theorem grow_at_49th_symbol_witness:
  "alloc_contract test_live (test_allocator 2) \<and>
   dAlloc_alloc (test_allocator 2) (sizeof_ptr * DYSL_SYMBOLS_INITIAL_CAPACITY)
     = (1, \<lparr>user_data = (1, 1, [1]), fn = test_fn\<rparr>) \<and>
   fst (dAlloc_alloc \<lparr>user_data = (1, 1, [1]), fn = test_fn\<rparr> (sizeof_ptr * 128)) \<noteq> 0 \<and>
   distinct fifty_names \<and> length fifty_names = 50 \<and> map length fifty_names = replicate 50 4 \<and>
   distinct fifty_addrs \<and> 0 \<notin> set fifty_addrs \<and> length fifty_addrs = 50 \<and>
   (\<exists>t m rs t49 m49 a49.
      dSymbols_init table_two blank_mem (test_allocator 2) DYSL_SYMBOLS_INITIAL_CAPACITY
        = Some (t, m, \<lparr>user_data = (1, 1, [1]), fn = test_fn\<rparr>) \<and>
      intern_all hash_bytes t m \<lparr>user_data = (1, 1, [1]), fn = test_fn\<rparr>
        (zip (take 49 fifty_addrs) (take 49 fifty_names)) = Some (rs, t49, m49, a49) \<and>
      capacity t49 = 128 \<and> count t49 = 49)"
proof -
  let ?a1 = "\<lparr>user_data = (1, 1, [1]), fn = test_fn\<rparr> :: (nat \<times> nat \<times> addr list) dysl_allocator"
  have con: "alloc_contract test_live (test_allocator 2)"
    unfolding test_allocator_def by (rule test_fn_contract)
  have al0: "dAlloc_alloc (test_allocator 2) (sizeof_ptr * DYSL_SYMBOLS_INITIAL_CAPACITY) = (1, ?a1)"
    by (simp add: dAlloc_alloc_def test_allocator_def test_fn_def sizeof_ptr_def
        DYSL_SYMBOLS_INITIAL_CAPACITY_def)
  have b: "(1::addr) \<noteq> 0" by simp
  have al1: "fst (dAlloc_alloc ?a1 (sizeof_ptr * 128)) \<noteq> 0"
    by (simp add: dAlloc_alloc_def test_fn_def sizeof_ptr_def)
  have nms: "distinct fifty_names" "length fifty_names = 50"
    using distinct_fifty_names by (simp_all add: fifty_names_def)
  have four: "map length fifty_names = replicate 50 4"
    by (simp add: fifty_names_def comp_def map_replicate_const)
  have fs: "distinct fifty_addrs" "0 \<notin> set fifty_addrs" "length fifty_addrs = 50"
    by (simp_all add: fifty_addrs_def)
  from grow_at_49th_symbol [OF con al0 b al1 nms fs, of table_two blank_mem hash_bytes]
  obtain t m rs t49 m49 a49 where
    "dSymbols_init table_two blank_mem (test_allocator 2) DYSL_SYMBOLS_INITIAL_CAPACITY = Some (t, m, ?a1)"
    "intern_all hash_bytes t m ?a1 (zip (take 49 fifty_addrs) (take 49 fifty_names))
       = Some (rs, t49, m49, a49)"
    "capacity t49 = 128" "count t49 = 49"
    by blast
  with con al0 al1 nms four fs show ?thesis by blast
qed

end
